theory Spec2Isabelle
  imports Main "HOL-Library.Word"
begin

unbundle bit_operations_syntax

section \<open>Bytes, sizes and destination buffers\<close>

text \<open>
  The unit \<^verbatim>\<open>libgps/hex.c\<close> works on \<^verbatim>\<open>char\<close> and \<^verbatim>\<open>unsigned char\<close> buffers. A byte
  is an 8-bit word; \<^verbatim>\<open>size_t\<close> is a 64-bit word, so that the unsigned subtraction
  \<^verbatim>\<open>scbuflen - 3\<close> and the unsigned addition \<^verbatim>\<open>next + 6\<close> wrap as they do in C.
\<close>

type_synonym u8 = "8 word"
type_synonym size_t = "64 word"

text \<open>A counter below a bound of its type can be incremented without wrapping around.\<close>

lemma size_t_succ: "(i::size_t) < n \<Longrightarrow> unat (i + 1) = Suc (unat i)"
proof -
  assume "i < n"
  then have "unat i < unat n" by (simp add: word_less_nat_alt)
  moreover have "unat n < 2 ^ 64" using unsigned_less[of n] by simp
  ultimately have "unat i + 1 < 2 ^ 64" by simp
  then show ?thesis by (simp add: unat_word_ariths)
qed

text \<open>
  A source buffer (\<^verbatim>\<open>binbuf\<close>, \<^verbatim>\<open>inbuf\<close>) is the list of the bytes at the pointer; its
  length parameter is passed next to it, as in C. The functions read \<^verbatim>\<open>buf[i]\<close> below that
  length parameter only; every statement about the bytes read assumes that the list
  holds at least that many bytes.
\<close>

text \<open>
  A function that writes through a destination pointer yields the list of its stores, in
  program order: the pair \<open>(k, v)\<close> is the C assignment \<^verbatim>\<open>dst[k] = v\<close>. The offset is a
  natural number, so that a store beyond the declared capacity stays visible.
  \<open>run_stores\<close> replays the stores on the memory at the destination pointer, and
  \<open>peek\<close> reads the first \<open>n\<close> bytes of that memory.
\<close>

type_synonym store = "nat \<times> u8"

fun run_stores :: "store list \<Rightarrow> (nat \<Rightarrow> u8) \<Rightarrow> (nat \<Rightarrow> u8)" where
  "run_stores [] mem = mem"
| "run_stores ((k, v) # ss) mem = run_stores ss (mem(k := v))"

definition peek :: "(nat \<Rightarrow> u8) \<Rightarrow> nat \<Rightarrow> u8 list" where
  "peek mem n = map mem [0..<n]"

text \<open>
  A C string argument is the list of the bytes at the pointer. The string ends at the
  first zero byte; the end of the list reads as the terminating NUL too.
\<close>

definition cstr :: "u8 list \<Rightarrow> nat \<Rightarrow> u8" where
  "cstr s k = (if k < length s then s ! k else 0)"

definition c_string :: "u8 list \<Rightarrow> u8 list" where
  "c_string s = takeWhile (\<lambda>c. c \<noteq> 0) s"

text \<open>\<^verbatim>\<open>strnlen\<close> of the C library: the length of the string, at most \<open>maxlen\<close>.\<close>

definition strnlen :: "u8 list \<Rightarrow> nat \<Rightarrow> nat" where
  "strnlen s maxlen = min (length (c_string s)) maxlen"

text \<open>
  \<^verbatim>\<open>isprint\<close> and \<^verbatim>\<open>isspace\<close> of \<^verbatim>\<open><ctype.h>\<close>, in the C locale: the printing characters
  are space to tilde, the white-space characters are space and the controls from
  horizontal tab to carriage return.
\<close>

definition isprint :: "u8 \<Rightarrow> bool" where
  "isprint c \<longleftrightarrow> 0x20 \<le> c \<and> c \<le> 0x7e"

definition isspace :: "u8 \<Rightarrow> bool" where
  "isspace c \<longleftrightarrow> c = 0x20 \<or> (0x09 \<le> c \<and> c \<le> 0x0d)"

text \<open>The hex digits of the specification: a character of \<^verbatim>\<open>[0-9a-fA-F]\<close>.\<close>

definition is_hex_digit :: "u8 \<Rightarrow> bool" where
  "is_hex_digit c \<longleftrightarrow>
     (0x30 \<le> c \<and> c \<le> 0x39) \<or> (0x41 \<le> c \<and> c \<le> 0x46) \<or> (0x61 \<le> c \<and> c \<le> 0x66)"

subsection \<open>The hex encoder: \<^verbatim>\<open>gps_hexdump\<close>\<close>

text \<open>The table \<^verbatim>\<open>hexchar = "0123456789abcdef"\<close>.\<close>

definition hexchar :: "u8 list" where
  "hexchar = [0x30, 0x31, 0x32, 0x33, 0x34, 0x35, 0x36, 0x37, 0x38, 0x39,
              0x61, 0x62, 0x63, 0x64, 0x65, 0x66]"

text \<open>
  The \<^verbatim>\<open>for\<close> loop of \<^verbatim>\<open>gps_hexdump\<close> with the store \<^verbatim>\<open>scbuf[j] = 0\<close> that follows it,
  from the loop state \<open>i\<close>, \<open>j\<close>. Both counters are \<^verbatim>\<open>size_t\<close>, and so is the bound
  \<^verbatim>\<open>scbuflen - 3\<close>, which wraps around for a capacity below 3. \<^verbatim>\<open>ibuf[i]\<close> is a \<^verbatim>\<open>char\<close>
  promoted to \<^verbatim>\<open>int\<close>; it is masked with \<^verbatim>\<open>0xf0\<close> or \<^verbatim>\<open>0x0f\<close> before it is used, so its sign
  does not reach the index into \<^verbatim>\<open>hexchar\<close>.
\<close>

function hexdump_loop :: "size_t \<Rightarrow> size_t \<Rightarrow> u8 list \<Rightarrow> size_t \<Rightarrow> size_t \<Rightarrow> store list" where
  "hexdump_loop scbuflen len ibuf i j =
    (if i < len \<and> j < scbuflen - 3 then
       (unat j, hexchar ! unat (drop_bit 4 (ibuf ! unat i AND 0xf0))) #
       (unat (j + 1), hexchar ! unat (ibuf ! unat i AND 0x0f)) #
       hexdump_loop scbuflen len ibuf (i + 1) (j + 2)
     else [(unat j, 0)])"
  by pat_completeness auto
termination
  by (relation "measure (\<lambda>(scbuflen, len, ibuf, i, j). unat len - unat i)")
     (auto simp: size_t_succ word_less_nat_alt)

declare hexdump_loop.simps [simp del]

text \<open>
  \<^verbatim>\<open>gps_hexdump(scbuf, scbuflen, binbuf, binbuflen)\<close>. The constant
  \<^verbatim>\<open>MAX_PACKET_LENGTH\<close> comes from \<^verbatim>\<open>gpsd.h\<close>, which is not part of the unit: it is the
  first parameter, already converted to \<^verbatim>\<open>size_t\<close> as the comparison with \<^verbatim>\<open>binbuflen\<close>
  does. \<open>None\<close> is the \<^verbatim>\<open>NULL\<close> source. The function returns \<^verbatim>\<open>scbuf\<close> on every path, so
  the result is the list of stores to \<^verbatim>\<open>scbuf\<close>.
\<close>

definition gps_hexdump :: "size_t \<Rightarrow> size_t \<Rightarrow> u8 list option \<Rightarrow> size_t \<Rightarrow> store list" where
  "gps_hexdump MAX_PACKET_LENGTH scbuflen binbuf binbuflen =
    (let len = (if binbuflen > MAX_PACKET_LENGTH then MAX_PACKET_LENGTH else binbuflen) in
     case binbuf of
       None \<Rightarrow> [(0, 0)]
     | Some ibuf \<Rightarrow>
         if binbuflen = 0 then [(0, 0)]
         else hexdump_loop scbuflen len ibuf 0 0)"

subsection \<open>The packet dumper: \<^verbatim>\<open>gpsd_packetdump\<close>\<close>

text \<open>
  The scan \<^verbatim>\<open>for (cp = binbuf; cp < binbuf + binbuflen; cp++)\<close>, with \<open>i\<close> the offset of
  \<^verbatim>\<open>cp\<close>: the value of \<^verbatim>\<open>printable\<close> when the loop ends.
\<close>

function packetdump_scan :: "u8 list \<Rightarrow> size_t \<Rightarrow> size_t \<Rightarrow> bool" where
  "packetdump_scan binbuf binbuflen i =
    (if i < binbuflen then
       (if \<not> isprint (binbuf ! unat i) \<and> \<not> isspace (binbuf ! unat i) then False
        else packetdump_scan binbuf binbuflen (i + 1))
     else True)"
  by pat_completeness auto
termination
  by (relation "measure (\<lambda>(binbuf, binbuflen, i). unat binbuflen - unat i)")
     (auto simp: size_t_succ word_less_nat_alt)

declare packetdump_scan.simps [simp del]

text \<open>
  The function returns one of three pointers: the string literal \<^verbatim>\<open>""\<close>, the source
  \<^verbatim>\<open>binbuf\<close> itself, or the destination \<^verbatim>\<open>scbuf\<close> filled by \<^verbatim>\<open>gps_hexdump\<close>.
\<close>

datatype dump_pointer = Empty_Literal | Source_Buffer | Dest_Buffer

definition gpsd_packetdump ::
  "size_t \<Rightarrow> size_t \<Rightarrow> u8 list option \<Rightarrow> size_t \<Rightarrow> dump_pointer \<times> store list" where
  "gpsd_packetdump MAX_PACKET_LENGTH scbuflen binbuf binbuflen =
    (case binbuf of
       None \<Rightarrow> (Empty_Literal, [])
     | Some buf \<Rightarrow>
         if packetdump_scan buf binbuflen 0 then (Source_Buffer, [])
         else (Dest_Buffer, gps_hexdump MAX_PACKET_LENGTH scbuflen binbuf binbuflen))"

text \<open>
  The text behind the returned pointer. The function returns a \<^verbatim>\<open>const char *\<close> with no
  length, and its callers read it as a C string: the bytes at the pointer up to the first
  NUL. \<open>read_c_string\<close> finds that string in the bytes that are at a pointer; it is
  \<open>None\<close> when there is no NUL among them, where a reader runs past them. For the
  literal the text is empty. For \<^verbatim>\<open>binbuf\<close> the bytes are those of the source, which the
  function neither copies nor terminates. For \<^verbatim>\<open>scbuf\<close> they are the first \<open>n\<close> bytes of
  the destination after the stores, \<open>mem\<close> being the destination before the call.
\<close>

definition read_c_string :: "u8 list \<Rightarrow> u8 list option" where
  "read_c_string bytes =
    (if 0 \<in> set bytes then Some (takeWhile (\<lambda>c. c \<noteq> 0) bytes) else None)"

definition returned_text ::
  "u8 list option \<Rightarrow> (nat \<Rightarrow> u8) \<Rightarrow> nat \<Rightarrow> dump_pointer \<times> store list \<Rightarrow> u8 list option" where
  "returned_text binbuf mem n res =
    (case fst res of
       Empty_Literal \<Rightarrow> Some []
     | Source_Buffer \<Rightarrow> (case binbuf of None \<Rightarrow> None | Some buf \<Rightarrow> read_c_string buf)
     | Dest_Buffer \<Rightarrow> read_c_string (peek (run_stores (snd res) mem) n))"

subsection \<open>The hex decoder: \<^verbatim>\<open>hex2bin\<close> and \<^verbatim>\<open>gps_hexpack\<close>\<close>

text \<open>
  \<^verbatim>\<open>hex2bin(s)\<close> reads \<^verbatim>\<open>s[0]\<close> and \<^verbatim>\<open>s[1]\<close>; here \<open>s\<close> is the string \<open>src\<close> at
  offset \<open>k\<close>. The shift \<^verbatim>\<open>a << 4\<close> is on an \<^verbatim>\<open>int\<close> below 16.
\<close>

definition hex2bin :: "u8 list \<Rightarrow> nat \<Rightarrow> int" where
  "hex2bin src k =
    (let a = uint (cstr src k) AND 0xff;
         b = uint (cstr src (k + 1)) AND 0xff
     in if \<not> ((a \<ge> 0x61 \<and> a \<le> 0x66) \<or> (a \<ge> 0x41 \<and> a \<le> 0x46) \<or> (a \<ge> 0x30 \<and> a \<le> 0x39))
        then - 1
        else
          let a = (if a \<ge> 0x61 \<and> a \<le> 0x66 then a + 10 - 0x61
                   else if a \<ge> 0x41 \<and> a \<le> 0x46 then a + 10 - 0x41
                   else a - 0x30)
          in if \<not> ((b \<ge> 0x61 \<and> b \<le> 0x66) \<or> (b \<ge> 0x41 \<and> b \<le> 0x46) \<or> (b \<ge> 0x30 \<and> b \<le> 0x39))
             then - 1
             else
               let b = (if b \<ge> 0x61 \<and> b \<le> 0x66 then b + 10 - 0x61
                        else if b \<ge> 0x41 \<and> b \<le> 0x46 then b + 10 - 0x41
                        else b - 0x30)
               in push_bit 4 a + b)"

text \<open>\<^verbatim>\<open>memset(dst + p, 0, n)\<close>: \<open>n\<close> zero bytes from offset \<open>p\<close> on.\<close>

definition memset_zero :: "nat \<Rightarrow> nat \<Rightarrow> store list" where
  "memset_zero p n = map (\<lambda>k. (k, 0)) [p..<p + n]"

text \<open>
  The \<^verbatim>\<open>for\<close> loop of \<^verbatim>\<open>gps_hexpack\<close> from the index \<open>i\<close>, with the \<^verbatim>\<open>memset\<close> and the
  \<^verbatim>\<open>return j\<close> that follow it: the returned value and the stores to \<^verbatim>\<open>dst\<close>. The stores
  made before a failing pair stay in the list. \<open>i\<close> and \<open>j\<close> are \<^verbatim>\<open>ssize_t\<close> in the
  source; \<open>j\<close> is half of a \<^verbatim>\<open>size_t\<close> and \<open>i\<close> stays at or below it, so neither
  overflows and both are natural numbers here.
\<close>

function hexpack_loop :: "u8 list \<Rightarrow> size_t \<Rightarrow> nat \<Rightarrow> nat \<Rightarrow> int \<times> store list" where
  "hexpack_loop src len j i =
    (if i < j then
       (let k = hex2bin src (i * 2) in
        if - 1 = k then (- 1, [])
        else (let (r, ss) = hexpack_loop src len j (i + 1)
              in (r, (i, word_of_int (k AND 0xff)) # ss)))
     else (int j, memset_zero i (unat len - i)))"
  by pat_completeness auto
termination
  by (relation "measure (\<lambda>(src, len, j, i). j - i)") auto

declare hexpack_loop.simps [simp del]

text \<open>
  \<^verbatim>\<open>gps_hexpack(src, dst, len)\<close>. \<^verbatim>\<open>BUFSIZ\<close> comes from \<^verbatim>\<open><stdio.h>\<close>: it is the first
  parameter, converted to \<^verbatim>\<open>size_t\<close> as the call of \<^verbatim>\<open>strnlen\<close> does. The source string
  and the destination are separate objects here; the call with \<^verbatim>\<open>dst\<close> equal to \<^verbatim>\<open>src\<close>,
  which the source allows, is outside the model.
\<close>

definition gps_hexpack :: "size_t \<Rightarrow> u8 list \<Rightarrow> size_t \<Rightarrow> int \<times> store list" where
  "gps_hexpack BUFSIZ src len =
    (let j = strnlen src (unat BUFSIZ) div 2 in
     if 1 > j \<or> j > unat len then (- 2, [])
     else hexpack_loop src len j 0)"

subsection \<open>The escape decoder: \<^verbatim>\<open>hex_escapes\<close>\<close>

text \<open>
  The first inner \<^verbatim>\<open>switch\<close> after the escape letter \<^verbatim>\<open>x\<close> (source lines 173 to 236):
  the high nibble selected by the first hex digit, \<open>None\<close> for the \<^verbatim>\<open>default\<close> branch.
\<close>

definition hex_hi :: "u8 \<Rightarrow> u8 option" where
  "hex_hi h =
    (if h = 0x30 then Some 0x00        \<comment> \<open>'0'\<close>
     else if h = 0x31 then Some 0x10   \<comment> \<open>'1'\<close>
     else if h = 0x32 then Some 0x20
     else if h = 0x33 then Some 0x30
     else if h = 0x34 then Some 0x40
     else if h = 0x35 then Some 0x50
     else if h = 0x36 then Some 0x60
     else if h = 0x37 then Some 0x70
     else if h = 0x38 then Some 0x80
     else if h = 0x39 then Some 0x90   \<comment> \<open>'9'\<close>
     else if h = 0x41 \<or> h = 0x61 then Some 0xa0   \<comment> \<open>'A', 'a'\<close>
     else if h = 0x42 \<or> h = 0x62 then Some 0xb0
     else if h = 0x43 \<or> h = 0x63 then Some 0xc0
     else if h = 0x44 \<or> h = 0x64 then Some 0xd0
     else if h = 0x45 \<or> h = 0x65 then Some 0xe0
     else if h = 0x46 \<or> h = 0x66 then Some 0xf0   \<comment> \<open>'F', 'f'\<close>
     else None)"

text \<open>
  The second inner \<^verbatim>\<open>switch\<close> (source lines 237 to 300): the amount added to \<^verbatim>\<open>c\<close> for
  the second hex digit, \<open>None\<close> for the \<^verbatim>\<open>default\<close> branch.
\<close>

definition hex_lo :: "u8 \<Rightarrow> u8 option" where
  "hex_lo l =
    (if l = 0x30 then Some 0x00        \<comment> \<open>'0'\<close>
     else if l = 0x31 then Some 0x01
     else if l = 0x32 then Some 0x02
     else if l = 0x33 then Some 0x03
     else if l = 0x34 then Some 0x04
     else if l = 0x35 then Some 0x05
     else if l = 0x36 then Some 0x06
     else if l = 0x37 then Some 0x07
     else if l = 0x38 then Some 0x08
     else if l = 0x39 then Some 0x09   \<comment> \<open>'9'\<close>
     else if l = 0x41 \<or> l = 0x61 then Some 0x0a   \<comment> \<open>'A', 'a'\<close>
     else if l = 0x42 \<or> l = 0x62 then Some 0x0b
     else if l = 0x43 \<or> l = 0x63 then Some 0x0c
     else if l = 0x44 \<or> l = 0x64 then Some 0x0d
     else if l = 0x45 \<or> l = 0x65 then Some 0x0e
     else if l = 0x46 \<or> l = 0x66 then Some 0x0f   \<comment> \<open>'F', 'f'\<close>
     else None)"

text \<open>
  The body of \<^verbatim>\<open>case 'x'\<close>: \<open>rest\<close> is the raw text after the \<^verbatim>\<open>x\<close>. The result is the
  error code of the failing \<^verbatim>\<open>default\<close> branch, or the decoded byte with the raw text
  that follows the two digits. The end of the list is the terminating NUL of the C
  string: it is read by \<^verbatim>\<open>*++raw\<close> and matches no \<^verbatim>\<open>case\<close>.
\<close>

definition hex_pair :: "u8 list \<Rightarrow> int + (u8 \<times> u8 list)" where
  "hex_pair rest =
    (case rest of
       [] \<Rightarrow> Inl (- 1)
     | h # rest1 \<Rightarrow>
        (case hex_hi h of
           None \<Rightarrow> Inl (- 1)
         | Some c \<Rightarrow>
            (case rest1 of
               [] \<Rightarrow> Inl (- 2)
             | l # rest2 \<Rightarrow>
                (case hex_lo l of
                   None \<Rightarrow> Inl (- 2)
                 | Some d \<Rightarrow> Inr (c + d, rest2)))))"

text \<open>
  The outer \<^verbatim>\<open>switch (*++raw)\<close> (source lines 150 to 308): \<open>rest\<close> is the raw text after
  the backslash. The result is the code returned by a failing branch, or the byte stored
  through \<^verbatim>\<open>cookend\<close> with the raw text that follows the escape.
\<close>

definition escape :: "u8 list \<Rightarrow> int + (u8 \<times> u8 list)" where
  "escape rest =
    (case rest of
       [] \<Rightarrow> Inl (- 3)
     | e # rest1 \<Rightarrow>
        (if e = 0x62 then Inr (0x08, rest1)        \<comment> \<open>case 'b': backspace\<close>
         else if e = 0x65 then Inr (0x1b, rest1)   \<comment> \<open>case 'e': ESC\<close>
         else if e = 0x66 then Inr (0x0c, rest1)   \<comment> \<open>case 'f': form feed\<close>
         else if e = 0x6e then Inr (0x0a, rest1)   \<comment> \<open>case 'n': newline\<close>
         else if e = 0x72 then Inr (0x0d, rest1)   \<comment> \<open>case 'r': carriage return\<close>
         else if e = 0x74 then Inr (0x0d, rest1)   \<comment> \<open>case 't': carriage return, as in the source\<close>
         else if e = 0x76 then Inr (0x0b, rest1)   \<comment> \<open>case 'v': vertical tab\<close>
         else if e = 0x78 then hex_pair rest1      \<comment> \<open>case 'x'\<close>
         else if e = 0x5c then Inr (0x5c, rest1)   \<comment> \<open>case backslash\<close>
         else Inl (- 3)))"

lemma escape_shorter: "escape rest = Inr (b, rest') \<Longrightarrow> length rest' < length rest"
  by (auto simp: escape_def hex_pair_def split: list.splits if_splits option.splits)

text \<open>
  The \<^verbatim>\<open>for\<close> loop of \<^verbatim>\<open>hex_escapes\<close>. \<open>raw\<close> is the text from the \<^verbatim>\<open>raw\<close> pointer on;
  \<open>cooked\<close> holds the bytes stored so far, at \<^verbatim>\<open>cooked[0]\<close>, \<^verbatim>\<open>cooked[1]\<close>, ... in this
  order (every store is \<^verbatim>\<open>*cookend++ = ...\<close>). The result is the returned \<^verbatim>\<open>ssize_t\<close>
  and the bytes stored in the cooked buffer when the function returns. A zero byte in
  the list ends the text as the end of the list does.
\<close>

function hex_escapes_loop :: "u8 list \<Rightarrow> u8 list \<Rightarrow> int \<times> u8 list" where
  "hex_escapes_loop [] cooked = (int (length cooked), cooked)"
| "hex_escapes_loop (r # raw) cooked =
    (if r = 0 then (int (length cooked), cooked)
     else if r \<noteq> 0x5c then hex_escapes_loop raw (cooked @ [r])
     else (case escape raw of
             Inl code \<Rightarrow> (code, cooked)
           | Inr (b, raw') \<Rightarrow> hex_escapes_loop raw' (cooked @ [b])))"
  by pat_completeness auto
termination
  by (relation "measure (\<lambda>(raw, cooked). length raw)")
     (auto dest: escape_shorter)

definition hex_escapes :: "u8 list \<Rightarrow> int \<times> u8 list" where
  "hex_escapes raw = hex_escapes_loop raw []"

subsection \<open>The visibilizer: \<^verbatim>\<open>gps_visibilize\<close>\<close>

text \<open>
  The two calls of \<^verbatim>\<open>snprintf\<close>, each with its stores at \<^verbatim>\<open>&outbuf[next]\<close> and its
  returned count. With the size 2, the format \<^verbatim>\<open>%c\<close> stores the character and a NUL.
  With the size 6, a backslash, \<^verbatim>\<open>x\<close> and \<^verbatim>\<open>%02x\<close> of a value below 256 store four
  characters, the digits in lower case, and a NUL.
\<close>

definition snprintf_c :: "nat \<Rightarrow> u8 \<Rightarrow> store list \<times> int" where
  "snprintf_c p ch = ([(p, ch), (p + 1, 0)], 1)"

definition snprintf_x :: "nat \<Rightarrow> u8 \<Rightarrow> store list \<times> int" where
  "snprintf_x p v =
    ([(p, 0x5c), (p + 1, 0x78),
      (p + 2, hexchar ! unat (drop_bit 4 v)), (p + 3, hexchar ! unat (v AND 0x0f)),
      (p + 4, 0)], 4)"

text \<open>
  The \<^verbatim>\<open>for\<close> loop of \<^verbatim>\<open>gps_visibilize\<close>, with \<open>i\<close> the offset of \<^verbatim>\<open>sp\<close> in \<^verbatim>\<open>inbuf\<close>.
  \<^verbatim>\<open>next\<close> is a \<^verbatim>\<open>size_t\<close>: \<^verbatim>\<open>next + 6\<close> and \<^verbatim>\<open>next += ret\<close> are unsigned.
\<close>

function visibilize_loop :: "size_t \<Rightarrow> u8 list \<Rightarrow> size_t \<Rightarrow> size_t \<Rightarrow> size_t \<Rightarrow> store list" where
  "visibilize_loop outlen inbuf inlen i next =
    (if i < inlen \<and> next + 6 < outlen then
       (let (ss, ret) =
              (if isprint (inbuf ! unat i) then snprintf_c (unat next) (inbuf ! unat i)
               else snprintf_x (unat next) (inbuf ! unat i))
        in if 1 > ret then ss
           else ss @ visibilize_loop outlen inbuf inlen (i + 1) (next + word_of_int ret))
     else [])"
  by pat_completeness auto
termination
  by (relation "measure (\<lambda>(outlen, inbuf, inlen, i, next). unat inlen - unat i)")
     (auto simp: size_t_succ word_less_nat_alt)

declare visibilize_loop.simps [simp del]

text \<open>
  \<^verbatim>\<open>gps_visibilize(outbuf, outlen, inbuf, inlen)\<close> returns \<^verbatim>\<open>outbuf\<close>: the result is the
  list of stores to \<^verbatim>\<open>outbuf\<close>, the first being \<^verbatim>\<open>outbuf[0] = 0\<close>.
\<close>

definition gps_visibilize :: "size_t \<Rightarrow> u8 list \<Rightarrow> size_t \<Rightarrow> store list" where
  "gps_visibilize outlen inbuf inlen = (0, 0) # visibilize_loop outlen inbuf inlen 0 0"


subsection \<open>The texts of the specification\<close>

text \<open>
  The hex text of a byte sequence as the specification words it: each byte becomes two
  characters of the table \<^verbatim>\<open>0123456789abcdef\<close>, the high nibble first.
\<close>

definition hex_byte :: "u8 \<Rightarrow> u8 list" where
  "hex_byte b = [hexchar ! (unat b div 16), hexchar ! (unat b mod 16)]"

definition hex_text :: "u8 list \<Rightarrow> u8 list" where
  "hex_text bs = concat (map hex_byte bs)"

text \<open>
  The text of the visibilizer as the specification words it: a printable byte is copied,
  any other byte becomes a backslash, \<^verbatim>\<open>x\<close> and its two hex digits in lower case; the
  rendering goes on while source bytes are left and \<open>next + reserve < c\<close>, where \<open>next\<close>
  counts the characters written so far and \<open>c\<close> is the capacity. The rule of the
  specification, a write of 4 characters that fits within \<open>c - 1\<close>, is the reserve 4; the
  loop of the source tests \<^verbatim>\<open>next + 6 < outlen\<close>, the reserve 6.
\<close>

definition visible_byte :: "u8 \<Rightarrow> u8 list" where
  "visible_byte b = (if isprint b then [b] else [0x5c, 0x78] @ hex_byte b)"

fun visible_text :: "nat \<Rightarrow> nat \<Rightarrow> nat \<Rightarrow> u8 list \<Rightarrow> u8 list" where
  "visible_text reserve c next [] = []"
| "visible_text reserve c next (b # bs) =
    (if next + reserve < c
     then visible_byte b @ visible_text reserve c (next + length (visible_byte b)) bs
     else [])"

section \<open>Properties of the escape decoder\<close>

lemma hex_digit_cases:
  "is_hex_digit c \<longleftrightarrow>
     c \<in> {0x30, 0x31, 0x32, 0x33, 0x34, 0x35, 0x36, 0x37, 0x38, 0x39,
          0x41, 0x42, 0x43, 0x44, 0x45, 0x46, 0x61, 0x62, 0x63, 0x64, 0x65, 0x66}"
  unfolding is_hex_digit_def
  apply (simp add: word_le_nat_alt word_unat_eq_iff)
  apply arith
  done

lemma hex_hi_None: "hex_hi h = None \<longleftrightarrow> \<not> is_hex_digit h"
  by (simp add: hex_hi_def hex_digit_cases)

lemma hex_lo_None: "hex_lo l = None \<longleftrightarrow> \<not> is_hex_digit l"
  by (simp add: hex_lo_def hex_digit_cases)

lemma escape_append:
  "escape raw = Inr (b, raw') \<Longrightarrow> escape (raw @ rest) = Inr (b, raw' @ rest)"
  by (auto simp: escape_def hex_pair_def split: list.splits if_splits option.splits)

lemma escape_code: "escape raw = Inl code \<Longrightarrow> code \<in> {- 1, - 2, - 3}"
  by (auto simp: escape_def hex_pair_def split: list.splits if_splits option.splits)

lemma escape_suffix: "escape raw = Inr (b, raw') \<Longrightarrow> set raw' \<subseteq> set raw"
  by (auto simp: escape_def hex_pair_def split: list.splits if_splits option.splits)

text \<open>
  A prefix that decodes without error is consumed as a whole: decoding goes on with the
  rest of the text, behind the bytes the prefix has produced.
\<close>

lemma hex_escapes_loop_append:
  "0 \<le> fst (hex_escapes_loop pre acc) \<Longrightarrow> 0 \<notin> set pre \<Longrightarrow>
   hex_escapes_loop (pre @ rest) acc = hex_escapes_loop rest (snd (hex_escapes_loop pre acc))"
proof (induction pre acc rule: hex_escapes_loop.induct)
  case (1 cooked)
  then show ?case by simp
next
  case (2 r raw cooked)
  show ?case
  proof (cases "r = 0x5c")
    case False
    with 2 show ?thesis by simp
  next
    case True
    show ?thesis
    proof (cases "escape raw")
      case (Inl code)
      with escape_code[OF Inl] 2 True show ?thesis by auto
    next
      case (Inr p)
      obtain b raw' where p: "p = (b, raw')" by (cases p)
      from Inr p have e: "escape raw = Inr (b, raw')" by simp
      from escape_suffix[OF e] 2(4) have nz: "0 \<notin> set raw'" by auto
      from 2(3) True e have r0: "r \<noteq> 0" and nr: "\<not> r \<noteq> 0x5c"
        and ok: "0 \<le> fst (hex_escapes_loop raw' (cooked @ [b]))" by auto
      from 2(2)[OF r0 nr Inr p[symmetric] ok nz] True e escape_append[OF e, of rest]
      show ?thesis by simp
    qed
  qed
qed

lemma hex_escapes_append:
  "0 \<le> fst (hex_escapes pre) \<Longrightarrow> 0 \<notin> set pre \<Longrightarrow>
   hex_escapes (pre @ rest) = hex_escapes_loop rest (snd (hex_escapes pre))"
  unfolding hex_escapes_def by (rule hex_escapes_loop_append)

text \<open>
  C1. The claim: the escape \<^verbatim>\<open>t\<close> decodes to the tab character 0x09, so that the raw
  string of \<^verbatim>\<open>a\<close>, backslash, \<^verbatim>\<open>t\<close>, \<^verbatim>\<open>b\<close>, backslash, \<^verbatim>\<open>x41\<close> gives the four bytes
  0x61, 0x09, 0x62, 0x41. The source stores a carriage return in \<^verbatim>\<open>case 't'\<close>, as it does
  in \<^verbatim>\<open>case 'r'\<close>: on this string the function returns 4 and the cooked buffer holds
  0x61, 0x0d, 0x62, 0x41. The second byte is 0x0d, not 0x09.
\<close>

theorem hex_escapes_tab_is_carriage_return:
  "hex_escapes [0x61, 0x5c, 0x74, 0x62, 0x5c, 0x78, 0x34, 0x31] = (4, [0x61, 0x0d, 0x62, 0x41])
   \<and> hex_escapes [0x5c, 0x74] = hex_escapes [0x5c, 0x72]
   \<and> snd (hex_escapes [0x61, 0x5c, 0x74, 0x62, 0x5c, 0x78, 0x34, 0x31]) \<noteq> [0x61, 0x09, 0x62, 0x41]"
  by (simp add: hex_escapes_def escape_def hex_pair_def hex_hi_def hex_lo_def)

text \<open>
  C5. The three failures of the escape decoder are terminal and have their own negative
  codes. After a prefix that decodes without error: a first character after backslash
  \<^verbatim>\<open>x\<close> that is no hex digit gives -1; a hex digit followed by a character that is no
  hex digit gives -2; a character after the backslash that is none of
  \<^verbatim>\<open>b e f n r t v x\<close> and backslash gives -3. In each case nothing behind the failing
  escape is decoded: the cooked buffer holds the bytes of the prefix only, whatever text
  follows.
\<close>

theorem hex_escapes_failure_codes:
  assumes "0 \<le> fst (hex_escapes pre)" and "0 \<notin> set pre"
  shows "(\<not> is_hex_digit h \<longrightarrow>
            hex_escapes (pre @ [0x5c, 0x78, h] @ rest) = (- 1, snd (hex_escapes pre)))
       \<and> (is_hex_digit h \<and> \<not> is_hex_digit l \<longrightarrow>
            hex_escapes (pre @ [0x5c, 0x78, h, l] @ rest) = (- 2, snd (hex_escapes pre)))
       \<and> (e \<notin> {0x62, 0x65, 0x66, 0x6e, 0x72, 0x74, 0x76, 0x78, 0x5c} \<longrightarrow>
            hex_escapes (pre @ [0x5c, e] @ rest) = (- 3, snd (hex_escapes pre)))"
proof (intro conjI impI)
  assume "\<not> is_hex_digit h"
  then have "hex_hi h = None" by (simp add: hex_hi_None)
  then show "hex_escapes (pre @ [0x5c, 0x78, h] @ rest) = (- 1, snd (hex_escapes pre))"
    by (simp add: hex_escapes_append[OF assms] escape_def hex_pair_def)
next
  assume "is_hex_digit h \<and> \<not> is_hex_digit l"
  then obtain c where "hex_hi h = Some c" and "hex_lo l = None"
    using hex_hi_None[of h] hex_lo_None[of l] by auto
  then show "hex_escapes (pre @ [0x5c, 0x78, h, l] @ rest) = (- 2, snd (hex_escapes pre))"
    by (simp add: hex_escapes_append[OF assms] escape_def hex_pair_def)
next
  assume "e \<notin> {0x62, 0x65, 0x66, 0x6e, 0x72, 0x74, 0x76, 0x78, 0x5c}"
  then show "hex_escapes (pre @ [0x5c, e] @ rest) = (- 3, snd (hex_escapes pre))"
    by (simp add: hex_escapes_append[OF assms] escape_def)
qed

text \<open>
  The instance of the specification: \<^verbatim>\<open>a\<close>, backslash, \<^verbatim>\<open>q\<close> fails with -3; and after the
  same prefix, backslash \<^verbatim>\<open>xg\<close> fails with -1 and backslash \<^verbatim>\<open>x4g\<close> with -2.
\<close>

theorem hex_escapes_failure_codes_witness:
  "0 \<le> fst (hex_escapes [0x61]) \<and> 0 \<notin> set [0x61 :: u8]
   \<and> \<not> is_hex_digit 0x67 \<and> is_hex_digit 0x34
   \<and> (0x71 :: u8) \<notin> {0x62, 0x65, 0x66, 0x6e, 0x72, 0x74, 0x76, 0x78, 0x5c}
   \<and> hex_escapes [0x61, 0x5c, 0x78, 0x67] = (- 1, [0x61])
   \<and> hex_escapes [0x61, 0x5c, 0x78, 0x34, 0x67] = (- 2, [0x61])
   \<and> hex_escapes [0x61, 0x5c, 0x71] = (- 3, [0x61])"
proof -
  have p: "0 \<le> fst (hex_escapes [0x61])" and q: "0 \<notin> set [0x61 :: u8]"
    and s: "snd (hex_escapes [0x61]) = [0x61]"
    by (simp_all add: hex_escapes_def)
  have g: "\<not> is_hex_digit 0x67" and d: "is_hex_digit 0x34"
    by (simp_all add: is_hex_digit_def)
  have n: "(0x71 :: u8) \<notin> {0x62, 0x65, 0x66, 0x6e, 0x72, 0x74, 0x76, 0x78, 0x5c}"
    by simp
  from hex_escapes_failure_codes[OF p q, where h = "0x67" and rest = "[]"] g d n s
  have "hex_escapes [0x61, 0x5c, 0x78, 0x67] = (- 1, [0x61])" by simp
  moreover
  from hex_escapes_failure_codes[OF p q, where h = "0x34" and l = "0x67" and e = "0x71" and rest = "[]"] g d n s
  have "hex_escapes [0x61, 0x5c, 0x78, 0x34, 0x67] = (- 2, [0x61])"
    and "hex_escapes [0x61, 0x5c, 0x71] = (- 3, [0x61])" by simp_all
  ultimately show ?thesis using p q g d n by simp
qed

text \<open>
  C10. A raw text that ends inside an escape fails with a definite code: the NUL that ends
  the text is read by the \<^verbatim>\<open>switch\<close> and takes its \<^verbatim>\<open>default\<close> branch. After a prefix
  that decodes without error, a final backslash gives -3, a final backslash \<^verbatim>\<open>x\<close> gives
  -1, and a final backslash \<^verbatim>\<open>x\<close> with one hex digit gives -2. The cooked buffer holds
  the bytes of the prefix.
\<close>

theorem hex_escapes_truncated_escape:
  assumes "0 \<le> fst (hex_escapes pre)" and "0 \<notin> set pre"
  shows "hex_escapes (pre @ [0x5c]) = (- 3, snd (hex_escapes pre))
       \<and> hex_escapes (pre @ [0x5c, 0x78]) = (- 1, snd (hex_escapes pre))
       \<and> (is_hex_digit h \<longrightarrow> hex_escapes (pre @ [0x5c, 0x78, h]) = (- 2, snd (hex_escapes pre)))"
proof (intro conjI impI)
  show "hex_escapes (pre @ [0x5c]) = (- 3, snd (hex_escapes pre))"
    by (simp add: hex_escapes_append[OF assms] escape_def)
  show "hex_escapes (pre @ [0x5c, 0x78]) = (- 1, snd (hex_escapes pre))"
    by (simp add: hex_escapes_append[OF assms] escape_def hex_pair_def)
next
  assume "is_hex_digit h"
  then obtain c where "hex_hi h = Some c" using hex_hi_None[of h] by auto
  then show "hex_escapes (pre @ [0x5c, 0x78, h]) = (- 2, snd (hex_escapes pre))"
    by (simp add: hex_escapes_append[OF assms] escape_def hex_pair_def)
qed

text \<open>
  With the prefix \<^verbatim>\<open>ab\<close> and the digit \<^verbatim>\<open>4\<close>; a zero byte written out in the list ends
  the text in the same way as the end of the list.
\<close>

theorem hex_escapes_truncated_escape_witness:
  "0 \<le> fst (hex_escapes [0x61, 0x62]) \<and> 0 \<notin> set [0x61, 0x62 :: u8] \<and> is_hex_digit 0x34
   \<and> hex_escapes [0x61, 0x62, 0x5c] = (- 3, [0x61, 0x62])
   \<and> hex_escapes [0x61, 0x62, 0x5c, 0x78] = (- 1, [0x61, 0x62])
   \<and> hex_escapes [0x61, 0x62, 0x5c, 0x78, 0x34] = (- 2, [0x61, 0x62])"
proof -
  have p: "0 \<le> fst (hex_escapes [0x61, 0x62])" and q: "0 \<notin> set [0x61, 0x62 :: u8]"
    and s: "snd (hex_escapes [0x61, 0x62]) = [0x61, 0x62]"
    by (simp_all add: hex_escapes_def)
  have d: "is_hex_digit 0x34" by (simp add: is_hex_digit_def)
  from hex_escapes_truncated_escape[OF p q, where h = "0x34"] d s p q
  show ?thesis by simp
qed

section \<open>Replaying stores\<close>

lemma run_stores_append: "run_stores (xs @ ys) mem = run_stores ys (run_stores xs mem)"
  by (induction xs arbitrary: mem) auto

lemma run_stores_other: "k \<notin> fst ` set ss \<Longrightarrow> run_stores ss mem k = mem k"
  by (induction ss arbitrary: mem) auto

lemma run_stores_distinct:
  "distinct (map fst ss) \<Longrightarrow> (k, v) \<in> set ss \<Longrightarrow> run_stores ss mem k = v"
proof (induction ss arbitrary: mem)
  case Nil
  then show ?case by simp
next
  case (Cons s ss)
  obtain k' v' where s: "s = (k', v')" by (cases s)
  show ?case
  proof (cases "(k, v) = s")
    case True
    with Cons(2) s show ?thesis by (simp add: run_stores_other)
  next
    case False
    with Cons s show ?thesis by auto
  qed
qed


section \<open>Properties of the hex decoder\<close>

lemma uint_and_ff: "uint (x::u8) AND 0xff = uint x"
proof -
  have "take_bit 8 (uint x) = uint x"
    using uint_bounded[of x] by (simp add: take_bit_int_eq_self)
  then show ?thesis by (simp add: take_bit_eq_mask mask_eq_exp_minus_1)
qed

lemma is_hex_digit_uint:
  "is_hex_digit c \<longleftrightarrow>
    (0x61 \<le> uint c \<and> uint c \<le> 0x66) \<or> (0x41 \<le> uint c \<and> uint c \<le> 0x46) \<or> (0x30 \<le> uint c \<and> uint c \<le> 0x39)"
  by (auto simp: is_hex_digit_def word_le_def)

lemma hex2bin_fail:
  "hex2bin src k = - 1 \<longleftrightarrow> \<not> (is_hex_digit (cstr src k) \<and> is_hex_digit (cstr src (k + 1)))"
  unfolding hex2bin_def Let_def uint_and_ff is_hex_digit_uint push_bit_eq_mult
  by (auto split: if_splits)

lemma hex2bin_range:
  "hex2bin src k \<noteq> - 1 \<Longrightarrow> 0 \<le> hex2bin src k \<and> hex2bin src k < 256"
  unfolding hex2bin_def Let_def uint_and_ff push_bit_eq_mult
  by (auto split: if_splits)

lemma hexpack_loop_fst:
  "i \<le> j \<Longrightarrow> fst (hexpack_loop src len j i) =
     (if \<exists>p. i \<le> p \<and> p < j \<and> hex2bin src (p * 2) = - 1 then - 1 else int j)"
proof (induction src len j i rule: hexpack_loop.induct)
  case (1 src len j i)
  show ?case
  proof (cases "i < j")
    case False
    with 1(2) show ?thesis by (subst hexpack_loop.simps) auto
  next
    case True
    show ?thesis
    proof (cases "hex2bin src (i * 2) = - 1")
      case bad: True
      with True show ?thesis by (subst hexpack_loop.simps) auto
    next
      case good: False
      have "(\<exists>p. i \<le> p \<and> p < j \<and> hex2bin src (p * 2) = - 1)
            \<longleftrightarrow> (\<exists>p. i + 1 \<le> p \<and> p < j \<and> hex2bin src (p * 2) = - 1)"
        using good by (metis Suc_eq_plus1 Suc_leI le_neq_implies_less add_leD1)
      moreover have "fst (hexpack_loop src len j (i + 1)) =
         (if \<exists>p. i + 1 \<le> p \<and> p < j \<and> hex2bin src (p * 2) = - 1 then - 1 else int j)"
        using 1(1)[OF True refl] good True by simp
      ultimately show ?thesis using True good
        by (subst hexpack_loop.simps) (simp add: split_def Let_def)
    qed
  qed
qed

lemma hexpack_loop_stores_good:
  "i \<le> j \<Longrightarrow> \<forall>p. i \<le> p \<and> p < j \<longrightarrow> hex2bin src (p * 2) \<noteq> - 1 \<Longrightarrow>
   snd (hexpack_loop src len j i) =
     map (\<lambda>p. (p, word_of_int (hex2bin src (p * 2) AND 0xff))) [i..<j] @ memset_zero j (unat len - j)"
proof (induction src len j i rule: hexpack_loop.induct)
  case (1 src len j i)
  show ?case
  proof (cases "i < j")
    case False
    with 1(2) show ?thesis by (subst hexpack_loop.simps) auto
  next
    case True
    with 1(3) have good: "hex2bin src (i * 2) \<noteq> - 1" by simp
    have "snd (hexpack_loop src len j (i + 1)) =
       map (\<lambda>p. (p, word_of_int (hex2bin src (p * 2) AND 0xff))) [i + 1..<j] @ memset_zero j (unat len - j)"
      using 1(1)[OF True refl] good True 1(3) by simp
    then show ?thesis using True good
      by (subst hexpack_loop.simps) (simp add: split_def Let_def upt_conv_Cons)
  qed
qed

lemma hexpack_loop_stores_bad:
  "i \<le> p \<Longrightarrow> p < j \<Longrightarrow> hex2bin src (p * 2) = - 1 \<Longrightarrow>
   \<forall>q. i \<le> q \<and> q < p \<longrightarrow> hex2bin src (q * 2) \<noteq> - 1 \<Longrightarrow>
   snd (hexpack_loop src len j i) =
     map (\<lambda>p. (p, word_of_int (hex2bin src (p * 2) AND 0xff))) [i..<p]"
proof (induction src len j i rule: hexpack_loop.induct)
  case (1 src len j i)
  show ?case
  proof (cases "i = p")
    case True
    with 1(3,4) show ?thesis by (subst hexpack_loop.simps) auto
  next
    case False
    with 1(2) have lt: "i < p" by simp
    with 1(3) have ij: "i < j" by simp
    from lt 1(5) have good: "hex2bin src (i * 2) \<noteq> - 1" by simp
    have "snd (hexpack_loop src len j (i + 1)) =
       map (\<lambda>p. (p, word_of_int (hex2bin src (p * 2) AND 0xff))) [i + 1..<p]"
      using 1(1)[OF ij refl] good lt 1(3,4,5) by simp
    then show ?thesis using ij good lt
      by (subst hexpack_loop.simps) (simp add: split_def Let_def upt_conv_Cons)
  qed
qed

lemma c_string_length: "length (c_string s) \<le> length s"
  by (simp add: c_string_def length_takeWhile_le)

lemma bad_pair_iff_bad_char:
  assumes "2 * j \<le> length (c_string src)"
  shows "(\<exists>p<j. hex2bin src (p * 2) = - 1) \<longleftrightarrow> (\<exists>k<2 * j. \<not> is_hex_digit (src ! k))"
proof
  assume "\<exists>p<j. hex2bin src (p * 2) = - 1"
  then obtain p where p: "p < j" and "hex2bin src (p * 2) = - 1" by auto
  then have "\<not> is_hex_digit (cstr src (p * 2)) \<or> \<not> is_hex_digit (cstr src (p * 2 + 1))"
    by (simp add: hex2bin_fail)
  moreover from p assms c_string_length[of src] have "p * 2 + 1 < length src" by simp
  ultimately have "\<not> is_hex_digit (src ! (p * 2)) \<or> \<not> is_hex_digit (src ! (p * 2 + 1))"
    by (simp add: cstr_def)
  moreover from p have "p * 2 < 2 * j" "p * 2 + 1 < 2 * j" by simp_all
  ultimately show "\<exists>k<2 * j. \<not> is_hex_digit (src ! k)" by blast
next
  assume "\<exists>k<2 * j. \<not> is_hex_digit (src ! k)"
  then obtain k where k: "k < 2 * j" and bad: "\<not> is_hex_digit (src ! k)" by auto
  define p where "p = k div 2"
  from k have p: "p < j" by (simp add: p_def)
  from p assms c_string_length[of src] have in_range: "p * 2 + 1 < length src" by simp
  have "k = p * 2 \<or> k = p * 2 + 1" unfolding p_def by presburger
  with bad in_range
  have "\<not> is_hex_digit (cstr src (p * 2)) \<or> \<not> is_hex_digit (cstr src (p * 2 + 1))"
    by (auto simp: cstr_def)
  then have "hex2bin src (p * 2) = - 1" by (simp add: hex2bin_fail)
  with p show "\<exists>p<j. hex2bin src (p * 2) = - 1" by blast
qed

lemma hex2bin_byte: "hex2bin src k \<noteq> - 1 \<Longrightarrow> hex2bin src k AND 0xff = hex2bin src k"
proof -
  assume "hex2bin src k \<noteq> - 1"
  then have "0 \<le> hex2bin src k" "hex2bin src k < 2 ^ 8" using hex2bin_range[of src k] by simp_all
  then have "take_bit 8 (hex2bin src k) = hex2bin src k" by (simp add: take_bit_int_eq_self)
  then show ?thesis by (simp add: take_bit_eq_mask mask_eq_exp_minus_1)
qed

lemma memset_zero_set: "set (memset_zero p n) = (\<lambda>k. (k, 0)) ` {p..<p + n}"
  by (simp add: memset_zero_def)

lemma hex2bin_replicate_digit:
  "is_hex_digit d \<Longrightarrow> k + 1 < n \<Longrightarrow> hex2bin (replicate n d) k \<noteq> - 1"
  by (simp add: hex2bin_fail cstr_def)


text \<open>
  C4. \<^verbatim>\<open>gps_hexpack\<close> returns -2 exactly when the number of pairs, half of the length of
  the source measured up to the cap \<^verbatim>\<open>BUFSIZ\<close>, is below 1 or above the capacity \<open>len\<close>.
  Otherwise it returns -1 exactly when one of the first \<open>2 * pairs\<close> characters of the
  source is no hex digit; it then stops at the first bad pair \<open>p\<close>, having stored the bytes
  of the pairs before \<open>p\<close> and nothing else.
\<close>

theorem gps_hexpack_error_codes:
  "(let pairs = strnlen src (unat BUFSIZ) div 2 in
     (fst (gps_hexpack BUFSIZ src len) = - 2 \<longleftrightarrow> pairs < 1 \<or> unat len < pairs)
   \<and> (\<not> (pairs < 1 \<or> unat len < pairs) \<longrightarrow>
        (fst (gps_hexpack BUFSIZ src len) = - 1 \<longleftrightarrow> (\<exists>k<2 * pairs. \<not> is_hex_digit (src ! k))))
   \<and> (\<forall>p. \<not> (pairs < 1 \<or> unat len < pairs) \<and> p < pairs
          \<and> (\<forall>k<2 * p. is_hex_digit (src ! k))
          \<and> (\<not> is_hex_digit (src ! (2 * p)) \<or> \<not> is_hex_digit (src ! (2 * p + 1))) \<longrightarrow>
          snd (gps_hexpack BUFSIZ src len) =
            map (\<lambda>q. (q, word_of_int (hex2bin src (q * 2)))) [0..<p]))"
proof -
  define pairs where "pairs = strnlen src (unat BUFSIZ) div 2"
  have len2: "2 * pairs \<le> length (c_string src)"
    unfolding pairs_def strnlen_def by simp
  have loop: "fst (hexpack_loop src len pairs 0) =
      (if \<exists>k<2 * pairs. \<not> is_hex_digit (src ! k) then - 1 else int pairs)"
    using hexpack_loop_fst[of 0 pairs src len] bad_pair_iff_bad_char[OF len2] by simp
  have a: "fst (gps_hexpack BUFSIZ src len) = - 2 \<longleftrightarrow> pairs < 1 \<or> unat len < pairs"
    unfolding gps_hexpack_def pairs_def[symmetric] Let_def using loop by auto
  have b: "fst (gps_hexpack BUFSIZ src len) = - 1 \<longleftrightarrow> (\<exists>k<2 * pairs. \<not> is_hex_digit (src ! k))"
    if "\<not> (pairs < 1 \<or> unat len < pairs)"
    unfolding gps_hexpack_def pairs_def[symmetric] Let_def using loop that by auto
  have c: "snd (gps_hexpack BUFSIZ src len) =
            map (\<lambda>q. (q, word_of_int (hex2bin src (q * 2)))) [0..<p]"
    if ok: "\<not> (pairs < 1 \<or> unat len < pairs)" and p: "p < pairs"
      and good: "\<forall>k<2 * p. is_hex_digit (src ! k)"
      and bad: "\<not> is_hex_digit (src ! (2 * p)) \<or> \<not> is_hex_digit (src ! (2 * p + 1))" for p
  proof -
    from p len2 c_string_length[of src] have r: "p * 2 + 1 < length src" by simp
    with bad have pbad: "hex2bin src (p * 2) = - 1"
      by (auto simp: hex2bin_fail cstr_def mult.commute)
    have qgood: "hex2bin src (q * 2) \<noteq> - 1" if "q < p" for q
    proof -
      from that r have "q * 2 + 1 < length src" by simp
      moreover from that good have "is_hex_digit (src ! (q * 2))" "is_hex_digit (src ! (q * 2 + 1))"
        by simp_all
      ultimately show ?thesis by (simp add: hex2bin_fail cstr_def)
    qed
    have "snd (hexpack_loop src len pairs 0) =
        map (\<lambda>p. (p, word_of_int (hex2bin src (p * 2) AND 0xff))) [0..<p]"
      by (rule hexpack_loop_stores_bad) (use p pbad qgood in auto)
    also have "\<dots> = map (\<lambda>q. (q, word_of_int (hex2bin src (q * 2)))) [0..<p]"
      using qgood by (simp add: hex2bin_byte)
    finally show ?thesis
      unfolding gps_hexpack_def pairs_def[symmetric] Let_def using ok by simp
  qed
  from a b c show ?thesis unfolding pairs_def[symmetric] Let_def by blast
qed

text \<open>
  The instances of the specification, with the cap 8192: \<^verbatim>\<open>abcdef\<close> with capacity 2 is
  refused with -2, and \<^verbatim>\<open>12g4\<close> with capacity 4 fails with -1 after the byte 0x12 of the
  first pair has been stored.
\<close>

theorem gps_hexpack_error_codes_witness:
  "fst (gps_hexpack 8192 [0x61, 0x62, 0x63, 0x64, 0x65, 0x66] 2) = - 2
   \<and> fst (gps_hexpack 8192 [0x31, 0x32, 0x67, 0x34] 4) = - 1
   \<and> snd (gps_hexpack 8192 [0x31, 0x32, 0x67, 0x34] 4) = [(0, 0x12)]"
proof -
  have n1: "strnlen [0x61, 0x62, 0x63, 0x64, 0x65, 0x66] (unat (8192 :: size_t)) div 2 = 3"
    and n2: "strnlen [0x31, 0x32, 0x67, 0x34] (unat (8192 :: size_t)) div 2 = 2"
    by (simp_all add: strnlen_def c_string_def)
  have bad: "\<exists>k<4. \<not> is_hex_digit ([0x31, 0x32, 0x67, 0x34] ! k)"
    by (rule exI[of _ 2]) (simp add: is_hex_digit_def)
  have good: "\<forall>k<2. is_hex_digit ([0x31, 0x32, 0x67, 0x34] ! k)"
  proof (intro allI impI)
    fix k :: nat
    assume "k < 2"
    then have "k = 0 \<or> k = 1" by arith
    then show "is_hex_digit ([0x31, 0x32, 0x67, 0x34] ! k)"
      by (auto simp: is_hex_digit_def)
  qed
  have g: "\<not> is_hex_digit ([0x31, 0x32, 0x67, 0x34] ! 2)"
    by (simp add: is_hex_digit_def)
  have h: "hex2bin [0x31, 0x32, 0x67, 0x34] 0 = 0x12"
    by (simp add: hex2bin_def cstr_def)
  from gps_hexpack_error_codes[of "[0x61, 0x62, 0x63, 0x64, 0x65, 0x66]" 8192 2]
  have "fst (gps_hexpack 8192 [0x61, 0x62, 0x63, 0x64, 0x65, 0x66] 2) = - 2"
    unfolding n1 Let_def by simp
  moreover
  from gps_hexpack_error_codes[of "[0x31, 0x32, 0x67, 0x34]" 8192 4] bad
  have "fst (gps_hexpack 8192 [0x31, 0x32, 0x67, 0x34] 4) = - 1"
    unfolding n2 Let_def by simp
  moreover
  have "snd (gps_hexpack 8192 [0x31, 0x32, 0x67, 0x34] 4) =
          map (\<lambda>q. (q, word_of_int (hex2bin [0x31, 0x32, 0x67, 0x34] (q * 2)))) [0..<1]"
  proof -
    have pre: "\<not> ((2::nat) < 1 \<or> unat (4 :: size_t) < 2) \<and> (1::nat) < 2
        \<and> (\<forall>k<2 * 1. is_hex_digit ([0x31, 0x32, 0x67, 0x34] ! k))
        \<and> (\<not> is_hex_digit ([0x31, 0x32, 0x67, 0x34] ! (2 * 1))
           \<or> \<not> is_hex_digit ([0x31, 0x32, 0x67, 0x34] ! (2 * 1 + 1)))"
      using good g by simp
    from gps_hexpack_error_codes[of "[0x31, 0x32, 0x67, 0x34]" 8192 4, unfolded Let_def n2]
    show ?thesis using pre by blast
  qed
  ultimately show ?thesis by (simp add: h)
qed


text \<open>
  C6, as stated: a successful \<^verbatim>\<open>gps_hexpack\<close> returns half of the length of the source.
  The code measures the source with \<^verbatim>\<open>strnlen(src, BUFSIZ)\<close>, so a longer source is cut at
  the cap. With the cap 8192, a source of 8194 digits \<^verbatim>\<open>0\<close> and the capacity 5000, the call
  succeeds and returns 4096, not 4097.
\<close>

theorem gps_hexpack_length_counterexample:
  "0 \<le> fst (gps_hexpack 8192 (replicate 8194 0x30) 5000)
   \<and> fst (gps_hexpack 8192 (replicate 8194 0x30) 5000)
       \<noteq> int (length (c_string (replicate 8194 (0x30 :: u8))) div 2)"
proof -
  have c: "c_string (replicate 8194 (0x30 :: u8)) = replicate 8194 0x30"
    by (simp add: c_string_def)
  have d: "is_hex_digit 0x30" by (simp add: is_hex_digit_def)
  have g: "gps_hexpack 8192 (replicate 8194 0x30) 5000 = hexpack_loop (replicate 8194 0x30) 5000 4096 0"
    by (simp add: gps_hexpack_def strnlen_def c)
  have "hex2bin (replicate 8194 0x30) (p * 2) \<noteq> - 1" if "p < 4096" for p
    by (rule hex2bin_replicate_digit[OF d]) (use that in simp)
  then have "\<not> (\<exists>p. 0 \<le> p \<and> p < 4096 \<and> hex2bin (replicate 8194 0x30) (p * 2) = - 1)"
    by blast
  with hexpack_loop_fst[of 0 4096 "replicate 8194 0x30" 5000]
  have "fst (gps_hexpack 8192 (replicate 8194 0x30) 5000) = 4096"
    unfolding g by simp
  then show ?thesis by (simp add: c)
qed

text \<open>
  C6, amended. Whenever \<^verbatim>\<open>gps_hexpack\<close> succeeds, it returns the number of pairs
  \<open>min (length of the source) BUFSIZ div 2\<close>, which is at least 1 and at most the capacity
  \<open>len\<close>; it has stored the decoded byte of every pair and then zero in every byte from
  that count up to the capacity, so that these bytes are zero afterwards, whatever the
  destination held before.
\<close>

theorem gps_hexpack_success:
  "0 \<le> fst (gps_hexpack BUFSIZ src len) \<longrightarrow>
     (let pairs = min (length (c_string src)) (unat BUFSIZ) div 2 in
        fst (gps_hexpack BUFSIZ src len) = int pairs
      \<and> 1 \<le> pairs \<and> pairs \<le> unat len
      \<and> snd (gps_hexpack BUFSIZ src len) =
          map (\<lambda>q. (q, word_of_int (hex2bin src (q * 2)))) [0..<pairs] @
          memset_zero pairs (unat len - pairs)
      \<and> (\<forall>k. pairs \<le> k \<and> k < unat len \<longrightarrow>
            run_stores (snd (gps_hexpack BUFSIZ src len)) mem k = 0))"
proof
  assume ok: "0 \<le> fst (gps_hexpack BUFSIZ src len)"
  define pairs where "pairs = min (length (c_string src)) (unat BUFSIZ) div 2"
  have g: "gps_hexpack BUFSIZ src len =
      (if 1 > pairs \<or> pairs > unat len then (- 2, []) else hexpack_loop src len pairs 0)"
    by (simp add: gps_hexpack_def strnlen_def pairs_def Let_def)
  from ok g have bounds: "1 \<le> pairs" "pairs \<le> unat len" by (auto split: if_splits)
  with g have run: "gps_hexpack BUFSIZ src len = hexpack_loop src len pairs 0" by simp
  from ok run hexpack_loop_fst[of 0 pairs src len]
  have good: "\<forall>p. 0 \<le> p \<and> p < pairs \<longrightarrow> hex2bin src (p * 2) \<noteq> - 1"
    and ret: "fst (gps_hexpack BUFSIZ src len) = int pairs"
    by (auto split: if_splits)
  have "snd (gps_hexpack BUFSIZ src len) =
      map (\<lambda>p. (p, word_of_int (hex2bin src (p * 2) AND 0xff))) [0..<pairs] @
      memset_zero pairs (unat len - pairs)"
    unfolding run by (rule hexpack_loop_stores_good) (use good in auto)
  also have "map (\<lambda>p. (p, word_of_int (hex2bin src (p * 2) AND 0xff))) [0..<pairs] =
      map (\<lambda>q. (q, word_of_int (hex2bin src (q * 2)))) [0..<pairs]"
    using good by (simp add: hex2bin_byte)
  finally have stores: "snd (gps_hexpack BUFSIZ src len) =
      map (\<lambda>q. (q, word_of_int (hex2bin src (q * 2)))) [0..<pairs] @
      memset_zero pairs (unat len - pairs)" .
  have fsts: "map fst (snd (gps_hexpack BUFSIZ src len)) = [0..<unat len]"
  proof -
    have "map fst (snd (gps_hexpack BUFSIZ src len)) = [0..<pairs] @ [pairs..<pairs + (unat len - pairs)]"
      unfolding stores by (simp add: memset_zero_def comp_def)
    also have "\<dots> = [0..<unat len]"
      using bounds upt_add_eq_append[of 0 pairs "unat len - pairs"] by simp
    finally show ?thesis .
  qed
  have zero: "run_stores (snd (gps_hexpack BUFSIZ src len)) mem k = 0"
    if "pairs \<le> k \<and> k < unat len" for k
  proof (rule run_stores_distinct)
    show "distinct (map fst (snd (gps_hexpack BUFSIZ src len)))" by (simp add: fsts)
    from that show "(k, 0) \<in> set (snd (gps_hexpack BUFSIZ src len))"
      unfolding stores by (auto simp: memset_zero_set)
  qed
  from ret bounds stores zero
  show "let pairs = min (length (c_string src)) (unat BUFSIZ) div 2 in
        fst (gps_hexpack BUFSIZ src len) = int pairs
      \<and> 1 \<le> pairs \<and> pairs \<le> unat len
      \<and> snd (gps_hexpack BUFSIZ src len) =
          map (\<lambda>q. (q, word_of_int (hex2bin src (q * 2)))) [0..<pairs] @
          memset_zero pairs (unat len - pairs)
      \<and> (\<forall>k. pairs \<le> k \<and> k < unat len \<longrightarrow>
            run_stores (snd (gps_hexpack BUFSIZ src len)) mem k = 0)"
    unfolding pairs_def[symmetric] Let_def by blast
qed

text \<open>
  The source \<^verbatim>\<open>12A4\<close> with capacity 4 and a destination full of 0xee: the call returns 2,
  stores 0x12 and 0xa4, and clears the bytes 2 and 3.
\<close>

theorem gps_hexpack_success_witness:
  "0 \<le> fst (gps_hexpack 8192 [0x31, 0x32, 0x41, 0x34] 4)
   \<and> fst (gps_hexpack 8192 [0x31, 0x32, 0x41, 0x34] 4) = 2
   \<and> snd (gps_hexpack 8192 [0x31, 0x32, 0x41, 0x34] 4) = [(0, 0x12), (1, 0xa4), (2, 0), (3, 0)]
   \<and> run_stores (snd (gps_hexpack 8192 [0x31, 0x32, 0x41, 0x34] 4)) (\<lambda>_. 0xee) 2 = 0
   \<and> run_stores (snd (gps_hexpack 8192 [0x31, 0x32, 0x41, 0x34] 4)) (\<lambda>_. 0xee) 3 = 0"
proof -
  have ok: "0 \<le> fst (gps_hexpack 8192 [0x31, 0x32, 0x41, 0x34] 4)"
    by (simp add: gps_hexpack_def strnlen_def c_string_def hexpack_loop.simps hex2bin_def
        cstr_def split_def)
  have n: "min (length (c_string [0x31, 0x32, 0x41, 0x34])) (unat (8192 :: size_t)) div 2 = 2"
    by (simp add: c_string_def)
  have h: "hex2bin [0x31, 0x32, 0x41, 0x34] 0 = 0x12" "hex2bin [0x31, 0x32, 0x41, 0x34] 2 = 0xa4"
    by (simp_all add: hex2bin_def cstr_def)
  have u: "[0..<2] = [0, 1]" by (simp add: upt_rec)
  note t = gps_hexpack_success[of 8192 "[0x31, 0x32, 0x41, 0x34]" 4 "\<lambda>_. 0xee",
      unfolded Let_def n, THEN mp, OF ok]
  from t have r: "fst (gps_hexpack 8192 [0x31, 0x32, 0x41, 0x34] 4) = 2"
    by (elim conjE) simp
  from t have s: "snd (gps_hexpack 8192 [0x31, 0x32, 0x41, 0x34] 4) =
          map (\<lambda>q. (q, word_of_int (hex2bin [0x31, 0x32, 0x41, 0x34] (q * 2)))) [0..<2] @
          memset_zero 2 (unat (4 :: size_t) - 2)"
    by (elim conjE)
  from t have z: "\<forall>k. 2 \<le> k \<and> k < unat (4 :: size_t) \<longrightarrow>
            run_stores (snd (gps_hexpack 8192 [0x31, 0x32, 0x41, 0x34] 4)) (\<lambda>_. 0xee) k = 0"
    by (elim conjE)
  from s have s': "snd (gps_hexpack 8192 [0x31, 0x32, 0x41, 0x34] 4) = [(0, 0x12), (1, 0xa4), (2, 0), (3, 0)]"
    by (simp add: u h memset_zero_def upt_rec)
  from z have "run_stores (snd (gps_hexpack 8192 [0x31, 0x32, 0x41, 0x34] 4)) (\<lambda>_. 0xee) 2 = 0"
    and "run_stores (snd (gps_hexpack 8192 [0x31, 0x32, 0x41, 0x34] 4)) (\<lambda>_. 0xee) 3 = 0"
    by simp_all
  with ok r s' show ?thesis by simp
qed

section \<open>Properties of the hex encoder\<close>

lemma low_nibble: "unat ((b::u8) AND 0x0f) = unat b mod 16"
proof -
  have "b AND 0x0f = take_bit 4 b" by (simp only: take_bit_eq_mask) (simp add: mask_eq_exp_minus_1)
  then have "unat (b AND 0x0f) = unat (take_bit 4 b)" by (rule arg_cong)
  also have "\<dots> = take_bit 4 (unat b)" by (rule unsigned_take_bit_eq)
  also have "\<dots> = unat b mod 16" by (simp add: take_bit_eq_mod)
  finally show ?thesis .
qed

lemma shifted_nibble: "unat (drop_bit 4 (b::u8)) = unat b div 16"
proof -
  have "unat (drop_bit 4 b) = drop_bit 4 (unat b)" by (rule unat_drop_bit_eq)
  also have "\<dots> = unat b div 16" by (simp add: drop_bit_eq_div)
  finally show ?thesis .
qed

lemma high_nibble: "unat (drop_bit 4 ((b::u8) AND 0xf0)) = unat b div 16"
proof -
  have "drop_bit 4 (0xf0 :: u8) = 0x0f" by simp
  then have "drop_bit 4 (b AND 0xf0) = drop_bit 4 b AND 0x0f" by (simp only: drop_bit_and)
  then have "unat (drop_bit 4 (b AND 0xf0)) = (unat b div 16) mod 16"
    by (simp only: low_nibble shifted_nibble)
  moreover have "unat b < 256" using unsigned_less[of b] by simp
  ultimately show ?thesis by simp
qed

lemma hex_text_Cons: "hex_text (b # bs) = hex_byte b @ hex_text bs"
  by (simp add: hex_text_def)

lemma length_hex_text: "length (hex_text bs) = 2 * length bs"
  by (induction bs) (simp_all add: hex_text_def hex_byte_def)

lemma size_t_sub3: "3 \<le> (c::size_t) \<Longrightarrow> unat (c - 3) = unat c - 3"
  by (simp add: unat_sub)

lemma size_t_add_small:
  "unat (j::size_t) + k < unat (c::size_t) \<Longrightarrow> k < 2 ^ 64 \<Longrightarrow> unat (j + of_nat k) = unat j + k"
proof -
  assume a: "unat j + k < unat c" and k: "k < 2 ^ 64"
  have "unat c < 2 ^ 64" using unsigned_less[of c] by simp
  with a have "unat j + k < 2 ^ 64" by simp
  moreover from k have "unat (of_nat k :: size_t) = k" by (simp add: unat_of_nat)
  ultimately show ?thesis by (simp add: unat_word_ariths)
qed

lemma hexdump_loop_stores:
  "3 \<le> scbuflen \<Longrightarrow> unat len \<le> length ibuf \<Longrightarrow>
   n = min (unat len) ((unat scbuflen - 2) div 2) \<Longrightarrow>
   unat j = 2 * unat i \<Longrightarrow> unat i \<le> n \<Longrightarrow>
    hexdump_loop scbuflen len ibuf i j =
      zip [2 * unat i..<2 * n + 1] (hex_text (drop (unat i) (take n ibuf)) @ [0])"
proof (induction scbuflen len ibuf i j rule: hexdump_loop.induct)
  case (1 scbuflen len ibuf i j)
  note c = \<open>3 \<le> scbuflen\<close> and len = \<open>unat len \<le> length ibuf\<close>
    and n = \<open>n = min (unat len) ((unat scbuflen - 2) div 2)\<close>
    and j = \<open>unat j = 2 * unat i\<close> and i = \<open>unat i \<le> n\<close>
  have guard: "(i < len \<and> j < scbuflen - 3) \<longleftrightarrow> unat i < n"
    using j n c by (auto simp: word_less_nat_alt size_t_sub3 word_le_nat_alt)
  show ?case
  proof (cases "unat i < n")
    case False
    with i have e: "unat i = n" by simp
    from False guard have "hexdump_loop scbuflen len ibuf i j = [(unat j, 0)]"
      by (subst hexdump_loop.simps) simp
    with e j show ?thesis by (simp add: hex_text_def)
  next
    case True
    with guard have g: "i < len" "j < scbuflen - 3" by simp_all
    from g(2) c have room: "unat j + 3 < unat scbuflen"
      by (simp add: word_less_nat_alt size_t_sub3)
    have i1: "unat (i + 1) = unat i + 1" using size_t_succ[OF g(1)] by simp
    have j1: "unat (j + 1) = unat j + 1"
      using size_t_add_small[of j 1 scbuflen] room by simp
    have j2: "unat (j + 2) = unat j + 2"
      using size_t_add_small[of j 2 scbuflen] room by simp
    from True n len have in_range: "unat i < length (take n ibuf)" by simp
    have dr: "drop (unat i) (take n ibuf) = ibuf ! unat i # drop (unat i + 1) (take n ibuf)"
      using Cons_nth_drop_Suc[OF in_range] True by simp
    have ih: "hexdump_loop scbuflen len ibuf (i + 1) (j + 2) =
        zip [2 * (unat i + 1)..<2 * n + 1] (hex_text (drop (unat i + 1) (take n ibuf)) @ [0])"
      using 1(1)[OF _ c len n] g i1 j2 j True by simp
    have up: "[2 * unat i..<2 * n + 1] = 2 * unat i # (2 * unat i + 1) # [2 * (unat i + 1)..<2 * n + 1]"
      using True by (simp add: upt_conv_Cons)
    have "hexdump_loop scbuflen len ibuf i j =
       (unat j, hexchar ! (unat (ibuf ! unat i) div 16)) #
       (unat j + 1, hexchar ! (unat (ibuf ! unat i) mod 16)) #
       hexdump_loop scbuflen len ibuf (i + 1) (j + 2)"
      by (subst hexdump_loop.simps) (simp only: g high_nibble low_nibble j1 simp_thms if_True)
    then show ?thesis
      unfolding ih dr up hex_text_Cons by (simp add: hex_byte_def j)
  qed
qed

lemma hex_byte_chars: "set (hex_byte b) \<subseteq> set hexchar"
proof -
  have "unat b < 256" using unsigned_less[of b] by simp
  then have "unat b div 16 < length hexchar" "unat b mod 16 < length hexchar"
    by (simp_all add: hexchar_def)
  then show ?thesis unfolding hex_byte_def using nth_mem by auto
qed

lemma hex_text_chars: "set (hex_text bs) \<subseteq> set hexchar"
  using hex_byte_chars by (auto simp: hex_text_def)

lemma gps_hexdump_stores:
  assumes "3 \<le> scbuflen" and "unat binbuflen \<le> length ibuf"
    and "n = min (min (unat binbuflen) (unat MAX_PACKET_LENGTH)) ((unat scbuflen - 2) div 2)"
  shows "gps_hexdump MAX_PACKET_LENGTH scbuflen (Some ibuf) binbuflen =
           zip [0..<2 * n + 1] (hex_text (take n ibuf) @ [0])"
proof (cases "binbuflen = 0")
  case True
  with assms(3) have "n = 0" by simp
  with True show ?thesis by (simp add: gps_hexdump_def hex_text_def)
next
  case False
  define len where "len = (if binbuflen > MAX_PACKET_LENGTH then MAX_PACKET_LENGTH else binbuflen)"
  have ul: "unat len = min (unat binbuflen) (unat MAX_PACKET_LENGTH)"
    by (auto simp: len_def word_less_nat_alt)
  with assms(2) have l: "unat len \<le> length ibuf" by simp
  from assms(3) ul have n: "n = min (unat len) ((unat scbuflen - 2) div 2)" by simp
  have "hexdump_loop scbuflen len ibuf 0 0 =
      zip [2 * unat (0::size_t)..<2 * n + 1] (hex_text (drop (unat (0::size_t)) (take n ibuf)) @ [0])"
    by (rule hexdump_loop_stores[OF assms(1) l n]) simp_all
  with False show ?thesis by (simp add: gps_hexdump_def len_def Let_def)
qed

lemma size_t_wrap1: "(1 :: size_t) - 3 = 0xFFFFFFFFFFFFFFFE" by simp
lemma size_t_wrap2: "(2 :: size_t) - 3 = 0xFFFFFFFFFFFFFFFF" by simp

lemma hexdump_cap1: "gps_hexdump 9216 1 (Some [0xab]) 1 = [(0, 0x61), (1, 0x62), (2, 0)]"
proof -
  have s1: "hexdump_loop 1 1 [0xab] 1 2 = [(2, 0)]"
    by (subst hexdump_loop.simps) simp
  have "hexdump_loop 1 1 [0xab] 0 0 = [(0, 0x61), (1, 0x62), (2, 0)]"
    by (subst hexdump_loop.simps) (simp add: size_t_wrap1 s1 hexchar_def del: diff_numeral_special)
  then show ?thesis by (simp add: gps_hexdump_def)
qed

lemma hexdump_cap2: "gps_hexdump 9216 2 (Some [0xab, 0xcd]) 2 =
        [(0, 0x61), (1, 0x62), (2, 0x63), (3, 0x64), (4, 0)]"
proof -
  have s2: "hexdump_loop 2 2 [0xab, 0xcd] 2 4 = [(4, 0)]"
    by (subst hexdump_loop.simps) simp
  have s1: "hexdump_loop 2 2 [0xab, 0xcd] 1 2 = [(2, 0x63), (3, 0x64), (4, 0)]"
    by (subst hexdump_loop.simps) (simp only: size_t_wrap2, simp add: s2 hexchar_def)
  have "hexdump_loop 2 2 [0xab, 0xcd] 0 0 = [(0, 0x61), (1, 0x62), (2, 0x63), (3, 0x64), (4, 0)]"
    by (subst hexdump_loop.simps) (simp only: size_t_wrap2, simp add: s1 hexchar_def)
  then show ?thesis by (simp add: gps_hexdump_def)
qed



text \<open>
  C8, as stated: the string written by \<^verbatim>\<open>gps_hexdump\<close> has two characters for each of the
  first \<open>min binbuflen MAX_PACKET_LENGTH\<close> source bytes, for every capacity. The loop also
  stops at \<^verbatim>\<open>j < scbuflen - 3\<close>: with the capacity 5 and two source bytes (and
  \<^verbatim>\<open>MAX_PACKET_LENGTH\<close> 9216, say) it stores two characters and the terminator, not four
  and the terminator.
\<close>

theorem gps_hexdump_length_counterexample:
  "gps_hexdump 9216 5 (Some [0xab, 0xcd]) 2 = [(0, 0x61), (1, 0x62), (2, 0)]
   \<and> length (gps_hexdump 9216 5 (Some [0xab, 0xcd]) 2)
        \<noteq> 2 * min (unat (2 :: size_t)) (unat (9216 :: size_t)) + 1"
  by (simp add: gps_hexdump_def hexdump_loop.simps hexchar_def)


text \<open>
  C8, amended. For a capacity of at least 3 and a source that is not \<^verbatim>\<open>NULL\<close>, of
  \<open>binbuflen\<close> bytes, \<^verbatim>\<open>gps_hexdump\<close> stores at the offsets 0, 1, 2, ... exactly
  \<open>2 * n\<close> characters of the table \<^verbatim>\<open>hexchar\<close>, the hex text of the first \<open>n\<close> source
  bytes, and then one terminator, where \<open>n\<close> is the least of \<open>binbuflen\<close>,
  \<^verbatim>\<open>MAX_PACKET_LENGTH\<close> and \<open>(scbuflen - 2) div 2\<close>. For a \<^verbatim>\<open>NULL\<close> source it stores the
  terminator only.
\<close>

theorem gps_hexdump_length:
  assumes "3 \<le> scbuflen" and "unat binbuflen \<le> length ibuf"
  shows "(let n = min (min (unat binbuflen) (unat MAX_PACKET_LENGTH)) ((unat scbuflen - 2) div 2) in
            gps_hexdump MAX_PACKET_LENGTH scbuflen (Some ibuf) binbuflen =
              zip [0..<2 * n + 1] (hex_text (take n ibuf) @ [0])
          \<and> length (hex_text (take n ibuf)) = 2 * n
          \<and> set (hex_text (take n ibuf)) \<subseteq> set hexchar)
       \<and> gps_hexdump MAX_PACKET_LENGTH scbuflen None binbuflen = [(0, 0)]"
proof -
  define n where "n = min (min (unat binbuflen) (unat MAX_PACKET_LENGTH)) ((unat scbuflen - 2) div 2)"
  from assms(2) have "n \<le> length ibuf" by (simp add: n_def)
  then have "length (hex_text (take n ibuf)) = 2 * n" by (simp add: length_hex_text)
  moreover note gps_hexdump_stores[OF assms n_def] hex_text_chars[of "take n ibuf"]
  moreover have "gps_hexdump MAX_PACKET_LENGTH scbuflen None binbuflen = [(0, 0)]"
    by (simp add: gps_hexdump_def)
  ultimately show ?thesis unfolding n_def[symmetric] Let_def by blast
qed


text \<open>
  Three bytes into a buffer of 16 are encoded in full; two bytes into a buffer of 5 are
  cut after the first.
\<close>

theorem gps_hexdump_length_witness:
  "(3 :: size_t) \<le> 16 \<and> unat (3 :: size_t) \<le> length [0xab, 0x01, 0xff :: u8]
   \<and> gps_hexdump 9216 16 (Some [0xab, 0x01, 0xff]) 3 =
        [(0, 0x61), (1, 0x62), (2, 0x30), (3, 0x31), (4, 0x66), (5, 0x66), (6, 0)]
   \<and> (3 :: size_t) \<le> 5 \<and> unat (2 :: size_t) \<le> length [0xab, 0xcd :: u8]
   \<and> gps_hexdump 9216 5 (Some [0xab, 0xcd]) 2 = [(0, 0x61), (1, 0x62), (2, 0)]"
proof -
  have a: "(3 :: size_t) \<le> 16" and b: "unat (3 :: size_t) \<le> length [0xab, 0x01, 0xff :: u8]"
    and c: "(3 :: size_t) \<le> 5" and d: "unat (2 :: size_t) \<le> length [0xab, 0xcd :: u8]"
    by simp_all
  have n1: "min (min (unat (3 :: size_t)) (unat (9216 :: size_t))) ((unat (16 :: size_t) - 2) div 2) = 3"
    and n2: "min (min (unat (2 :: size_t)) (unat (9216 :: size_t))) ((unat (5 :: size_t) - 2) div 2) = 1"
    by simp_all
  have u: "[0..<7] = [0, 1, 2, 3, 4, 5, 6]" "[0..<3] = [0, 1, 2]" by (simp_all add: upt_rec)
  from gps_hexdump_length[OF a b, of 9216, unfolded Let_def n1]
  have "gps_hexdump 9216 16 (Some [0xab, 0x01, 0xff]) 3 =
        [(0, 0x61), (1, 0x62), (2, 0x30), (3, 0x31), (4, 0x66), (5, 0x66), (6, 0)]"
    by (simp add: u hex_text_def hex_byte_def hexchar_def)
  moreover
  from gps_hexdump_length[OF c d, of 9216, unfolded Let_def n2]
  have "gps_hexdump 9216 5 (Some [0xab, 0xcd]) 2 = [(0, 0x61), (1, 0x62), (2, 0)]"
    by (simp add: u hex_text_def hex_byte_def hexchar_def)
  ultimately show ?thesis using a b c d by simp
qed


text \<open>
  C9, as stated: \<^verbatim>\<open>gpsd_packetdump\<close> of a source that is not \<^verbatim>\<open>NULL\<close> and has length 0
  yields an empty string. The function returns the pointer \<^verbatim>\<open>binbuf\<close> itself and stores
  nothing, so the caller reads whatever C string the source memory holds: for a source
  that holds \<^verbatim>\<open>hello\<close> and a NUL, passed with the length 0, the text behind the returned
  pointer is \<^verbatim>\<open>hello\<close>.
\<close>

theorem packetdump_zero_length_counterexample:
  "gpsd_packetdump 9216 16 (Some [0x68, 0x65, 0x6c, 0x6c, 0x6f, 0]) 0 = (Source_Buffer, [])
   \<and> returned_text (Some [0x68, 0x65, 0x6c, 0x6c, 0x6f, 0]) (\<lambda>_. 0) 16
        (gpsd_packetdump 9216 16 (Some [0x68, 0x65, 0x6c, 0x6c, 0x6f, 0]) 0)
       = Some [0x68, 0x65, 0x6c, 0x6c, 0x6f]"
proof -
  have "packetdump_scan [0x68, 0x65, 0x6c, 0x6c, 0x6f, 0] 0 0"
    by (subst packetdump_scan.simps) simp
  then show ?thesis
    by (simp add: gpsd_packetdump_def returned_text_def read_c_string_def)
qed

text \<open>
  C9, amended. \<^verbatim>\<open>gpsd_packetdump\<close> of a \<^verbatim>\<open>NULL\<close> source returns the literal empty string.
  A source that is not \<^verbatim>\<open>NULL\<close> and has length 0 passes the scan as printable; the
  function stores nothing and returns the source pointer itself, so that the text behind
  the returned pointer is the C string of the source memory: it is empty exactly when the
  first byte of the source is a NUL. \<^verbatim>\<open>gps_hexdump\<close> of a \<^verbatim>\<open>NULL\<close> or zero-length source
  stores the terminator at offset 0 and nothing else; with a capacity of at least 1 that
  store is inside the destination, which then holds the empty string. None of the
  functions has an error result.
\<close>

theorem empty_input_results:
  "gpsd_packetdump MAX_PACKET_LENGTH scbuflen None binbuflen = (Empty_Literal, [])
   \<and> returned_text None mem n (gpsd_packetdump MAX_PACKET_LENGTH scbuflen None binbuflen)
       = Some []
   \<and> packetdump_scan buf 0 0
   \<and> gpsd_packetdump MAX_PACKET_LENGTH scbuflen (Some buf) 0 = (Source_Buffer, [])
   \<and> returned_text (Some buf) mem n (gpsd_packetdump MAX_PACKET_LENGTH scbuflen (Some buf) 0)
       = read_c_string buf
   \<and> (returned_text (Some buf) mem n (gpsd_packetdump MAX_PACKET_LENGTH scbuflen (Some buf) 0)
         = Some [] \<longleftrightarrow> (\<exists>rest. buf = 0 # rest))
   \<and> gps_hexdump MAX_PACKET_LENGTH scbuflen None binbuflen = [(0, 0)]
   \<and> gps_hexdump MAX_PACKET_LENGTH scbuflen (Some buf) 0 = [(0, 0)]
   \<and> (1 \<le> scbuflen \<longrightarrow>
        fst ` set (gps_hexdump MAX_PACKET_LENGTH scbuflen None binbuflen) \<subseteq> {..<unat scbuflen}
      \<and> fst ` set (gps_hexdump MAX_PACKET_LENGTH scbuflen (Some buf) 0) \<subseteq> {..<unat scbuflen}
      \<and> read_c_string (peek (run_stores
            (gps_hexdump MAX_PACKET_LENGTH scbuflen None binbuflen) mem) (unat scbuflen)) = Some []
      \<and> read_c_string (peek (run_stores
            (gps_hexdump MAX_PACKET_LENGTH scbuflen (Some buf) 0) mem) (unat scbuflen)) = Some [])"
proof -
  have scan: "packetdump_scan buf 0 0"
    by (subst packetdump_scan.simps) simp
  have h: "gps_hexdump MAX_PACKET_LENGTH scbuflen None binbuflen = [(0, 0)]"
    "gps_hexdump MAX_PACKET_LENGTH scbuflen (Some buf) 0 = [(0, 0)]"
    by (simp_all add: gps_hexdump_def)
  have p: "gpsd_packetdump MAX_PACKET_LENGTH scbuflen None binbuflen = (Empty_Literal, [])"
    "gpsd_packetdump MAX_PACKET_LENGTH scbuflen (Some buf) 0 = (Source_Buffer, [])"
    using scan by (simp_all add: gpsd_packetdump_def)
  have e: "read_c_string buf = Some [] \<longleftrightarrow> (\<exists>rest. buf = 0 # rest)"
    by (cases buf) (auto simp: read_c_string_def)
  have d: "read_c_string (peek (run_stores [(0, 0)] mem) (unat scbuflen)) = Some []"
    if "1 \<le> scbuflen"
  proof -
    from that have "0 < unat scbuflen" by (simp add: word_le_nat_alt)
    then obtain m where "unat scbuflen = Suc m" by (cases "unat scbuflen") simp_all
    then show ?thesis by (simp add: read_c_string_def peek_def upt_conv_Cons)
  qed
  have b: "fst ` set [(0 :: nat, 0 :: u8)] \<subseteq> {..<unat scbuflen}" if "1 \<le> scbuflen"
    using that by (simp add: word_le_nat_alt)
  show ?thesis
    unfolding h p using scan e d b by (simp add: returned_text_def)
qed

text \<open>
  With the capacity 16: a source whose first byte is a NUL, passed with the length 0, reads
  as the empty string behind the returned pointer; the one store of \<^verbatim>\<open>gps_hexdump\<close> is at
  offset 0, and the destination, full of 0xee before, holds the empty string.
\<close>

theorem empty_input_results_witness:
  "(1 :: size_t) \<le> 16
   \<and> returned_text (Some [0, 0x65]) (\<lambda>_. 0xee) 16 (gpsd_packetdump 9216 16 (Some [0, 0x65]) 0)
       = Some []
   \<and> gps_hexdump 9216 16 (Some [0, 0x65]) 0 = [(0, 0)]
   \<and> read_c_string (peek (run_stores (gps_hexdump 9216 16 (Some [0, 0x65]) 0) (\<lambda>_. 0xee)) 16)
       = Some []"
proof -
  have c: "(1 :: size_t) \<le> 16" by simp
  have x: "\<exists>rest. [0, 0x65 :: u8] = 0 # rest" by simp
  note t = empty_input_results[of 9216 16 0 "\<lambda>_. 0xee" 16 "[0, 0x65]"]
  from t x have "returned_text (Some [0, 0x65]) (\<lambda>_. 0xee) 16
      (gpsd_packetdump 9216 16 (Some [0, 0x65]) 0) = Some []" by blast
  moreover from t have "gps_hexdump 9216 16 (Some [0, 0x65]) 0 = [(0, 0)]" by blast
  moreover from t c have "read_c_string (peek (run_stores
      (gps_hexdump 9216 16 (Some [0, 0x65]) 0) (\<lambda>_. 0xee)) (unat (16 :: size_t))) = Some []"
    by blast
  ultimately show ?thesis using c by simp
qed


section \<open>Encoding, then decoding\<close>

lemma uint_hexchar:
  "h < 16 \<Longrightarrow> uint (hexchar ! h) = (if h < 10 then 48 + int h else 87 + int h)"
proof -
  assume "h < 16"
  then have "h \<in> set [0..<16]" by simp
  also have "set [0..<16] = {0, 1, 2, 3, 4, 5, 6, 7, 8, 9, 10, 11, 12, 13, 14, 15 :: nat}"
    by (simp add: upt_rec eval_nat_numeral)
  finally show ?thesis by (auto simp: hexchar_def)
qed

lemma hex2bin_hexchar:
  assumes "cstr src k = hexchar ! h" and "cstr src (k + 1) = hexchar ! l"
    and "h < 16" and "l < 16"
  shows "hex2bin src k = int (16 * h + l)"
proof -
  have "uint (cstr src k) AND 0xff = uint (cstr src k)" by (rule uint_and_ff)
  also have "\<dots> = uint (hexchar ! h)" by (simp only: assms(1))
  also have "\<dots> = (if h < 10 then 48 + int h else 87 + int h)"
    by (rule uint_hexchar[OF assms(3)])
  finally have a: "uint (cstr src k) AND 0xff = (if h < 10 then 48 + int h else 87 + int h)" .
  have "uint (cstr src (k + 1)) AND 0xff = uint (cstr src (k + 1))" by (rule uint_and_ff)
  also have "\<dots> = uint (hexchar ! l)" by (simp only: assms(2))
  also have "\<dots> = (if l < 10 then 48 + int l else 87 + int l)"
    by (rule uint_hexchar[OF assms(4)])
  finally have b: "uint (cstr src (k + 1)) AND 0xff = (if l < 10 then 48 + int l else 87 + int l)" .
  show ?thesis
    unfolding hex2bin_def Let_def a b push_bit_eq_mult using assms(3,4) by auto
qed

lemma nth_hex_text:
  "p < length bs \<Longrightarrow> hex_text bs ! (p * 2) = hexchar ! (unat (bs ! p) div 16)
     \<and> hex_text bs ! (p * 2 + 1) = hexchar ! (unat (bs ! p) mod 16)"
proof (induction bs arbitrary: p)
  case Nil
  then show ?case by simp
next
  case (Cons b bs)
  show ?case
  proof (cases p)
    case 0
    then show ?thesis by (simp add: hex_text_Cons hex_byte_def)
  next
    case (Suc q)
    with Cons show ?thesis by (simp add: hex_text_Cons hex_byte_def)
  qed
qed

lemma hex2bin_hex_text:
  assumes "p < length bs"
  shows "hex2bin (hex_text bs @ rest) (p * 2) = uint (bs ! p)"
proof -
  from assms have r: "p * 2 + 1 < length (hex_text bs)" by (simp add: length_hex_text)
  then have a: "cstr (hex_text bs @ rest) (p * 2) = hexchar ! (unat (bs ! p) div 16)"
    and b: "cstr (hex_text bs @ rest) (p * 2 + 1) = hexchar ! (unat (bs ! p) mod 16)"
    using nth_hex_text[OF assms] by (simp_all add: cstr_def nth_append)
  have "unat (bs ! p) < 256" using unsigned_less[of "bs ! p"] by simp
  then have "unat (bs ! p) div 16 < 16" "unat (bs ! p) mod 16 < 16" by simp_all
  from hex2bin_hexchar[OF a b this]
  have "hex2bin (hex_text bs @ rest) (p * 2) = int (unat (bs ! p))" by simp
  then show ?thesis by simp
qed

lemma hexchar_nonzero: "0 \<notin> set hexchar"
  by (simp add: hexchar_def)

lemma c_string_hex_text: "c_string (hex_text bs @ 0 # rest) = hex_text bs"
proof -
  have "\<forall>c\<in>set (hex_text bs). c \<noteq> 0"
    using hex_text_chars[of bs] hexchar_nonzero by auto
  then show ?thesis by (simp add: c_string_def takeWhile_append2)
qed

lemma run_stores_zip:
  "length xs = n \<Longrightarrow> run_stores (zip [0..<n] xs) mem k = (if k < n then xs ! k else mem k)"
proof (cases "k < n")
  case True
  assume l: "length xs = n"
  have "run_stores (zip [0..<n] xs) mem k = xs ! k"
  proof (rule run_stores_distinct)
    show "distinct (map fst (zip [0..<n] xs))" using l by simp
    show "(k, xs ! k) \<in> set (zip [0..<n] xs)"
      using True l by (auto simp: set_zip intro!: exI[of _ k])
  qed
  with True show ?thesis by simp
next
  case False
  assume l: "length xs = n"
  have "k \<notin> fst ` set (zip [0..<n] xs)"
    using False by (auto dest!: set_zip_leftD)
  with False show ?thesis by (simp add: run_stores_other)
qed

lemma peek_run_stores_zip:
  "length xs = n \<Longrightarrow> n \<le> m \<Longrightarrow>
   peek (run_stores (zip [0..<n] xs) mem) m = xs @ map mem [n..<m]"
  by (rule nth_equalityI) (auto simp: peek_def run_stores_zip nth_append)

lemma hexdump_buffer:
  assumes "length b \<le> unat MAX_PACKET_LENGTH" and "2 * length b + 2 \<le> unat scbuflen"
    and "b \<noteq> []"
  shows "peek (run_stores (gps_hexdump MAX_PACKET_LENGTH scbuflen (Some b) (of_nat (length b))) mem)
           (unat scbuflen) =
         hex_text b @ 0 # map mem [2 * length b + 1..<unat scbuflen]"
proof -
  define n where "n = length b"
  have c64: "unat scbuflen < 2 ^ 64" using unsigned_less[of scbuflen] by simp
  with assms(2) have "n < 2 ^ 64" by (simp add: n_def)
  then have un: "unat (of_nat n :: size_t) = n" by (simp add: unat_of_nat)
  from assms(2,3) have "3 \<le> unat scbuflen" by (cases b) simp_all
  then have c3: "3 \<le> scbuflen" by (simp add: word_le_nat_alt)
  have len: "unat (of_nat n :: size_t) \<le> length b" unfolding un by (simp add: n_def)
  have m: "n = min (min (unat (of_nat n :: size_t)) (unat MAX_PACKET_LENGTH)) ((unat scbuflen - 2) div 2)"
    unfolding un using assms(1,2) by (simp add: n_def)
  have "gps_hexdump MAX_PACKET_LENGTH scbuflen (Some b) (of_nat n) =
      zip [0..<2 * n + 1] (hex_text (take n b) @ [0])"
    by (rule gps_hexdump_stores[OF c3 len m])
  then have st: "gps_hexdump MAX_PACKET_LENGTH scbuflen (Some b) (of_nat n) =
      zip [0..<2 * n + 1] (hex_text b @ [0])" by (simp add: n_def)
  have "peek (run_stores (zip [0..<2 * n + 1] (hex_text b @ [0])) mem) (unat scbuflen) =
      (hex_text b @ [0]) @ map mem [2 * n + 1..<unat scbuflen]"
    by (rule peek_run_stores_zip) (use assms(2) in \<open>simp_all add: length_hex_text n_def\<close>)
  with st show ?thesis by (simp add: n_def)
qed

lemma hexpack_hex_text:
  assumes j: "j = min (2 * length b) (unat BUFSIZ) div 2" and "1 \<le> j" and "j \<le> unat len"
  shows "gps_hexpack BUFSIZ (hex_text b @ 0 # rest) len =
          (int j, map (\<lambda>p. (p, b ! p)) [0..<j] @ memset_zero j (unat len - j))"
proof -
  define enc where "enc = hex_text b @ 0 # rest"
  from j have jb: "j \<le> length b" by simp
  have "strnlen enc (unat BUFSIZ) div 2 = j"
    by (simp add: strnlen_def enc_def c_string_hex_text length_hex_text j)
  with assms(2,3) have g: "gps_hexpack BUFSIZ enc len = hexpack_loop enc len j 0"
    by (simp add: gps_hexpack_def)
  have h: "hex2bin enc (p * 2) = uint (b ! p)" if "p < j" for p
    unfolding enc_def by (rule hex2bin_hex_text) (use that jb in simp)
  have nn: "uint (b ! p) \<noteq> - 1" for p
  proof -
    have "0 \<le> uint (b ! p)" by simp
    then show ?thesis by arith
  qed
  from h nn have good: "\<forall>p. 0 \<le> p \<and> p < j \<longrightarrow> hex2bin enc (p * 2) \<noteq> - 1" by simp
  then have "\<not> (\<exists>p. 0 \<le> p \<and> p < j \<and> hex2bin enc (p * 2) = - 1)" by blast
  with hexpack_loop_fst[of 0 j enc len] have r: "fst (hexpack_loop enc len j 0) = int j" by simp
  have "snd (hexpack_loop enc len j 0) =
      map (\<lambda>p. (p, word_of_int (hex2bin enc (p * 2) AND 0xff))) [0..<j] @ memset_zero j (unat len - j)"
    by (rule hexpack_loop_stores_good[OF _ good]) simp
  also have "map (\<lambda>p. (p, word_of_int (hex2bin enc (p * 2) AND 0xff))) [0..<j] =
      map (\<lambda>p. (p, b ! p)) [0..<j]"
    using h by (simp add: uint_and_ff)
  finally have s: "snd (hexpack_loop enc len j 0) =
      map (\<lambda>p. (p, b ! p)) [0..<j] @ memset_zero j (unat len - j)" .
  from r s g show ?thesis unfolding enc_def by (simp add: prod_eq_iff)
qed

lemma peek_decoded:
  assumes "j \<le> length b"
  shows "peek (run_stores (map (\<lambda>p. (p, b ! p)) [0..<j] @ memset_zero j m) mem) j = take j b"
proof (rule nth_equalityI)
  show "length (peek (run_stores (map (\<lambda>p. (p, b ! p)) [0..<j] @ memset_zero j m) mem) j)
      = length (take j b)"
    using assms by (simp add: peek_def)
next
  fix k
  assume "k < length (peek (run_stores (map (\<lambda>p. (p, b ! p)) [0..<j] @ memset_zero j m) mem) j)"
  then have k: "k < j" by (simp add: peek_def)
  have "run_stores (map (\<lambda>p. (p, b ! p)) [0..<j] @ memset_zero j m) mem k = b ! k"
  proof (rule run_stores_distinct)
    have "map fst (map (\<lambda>p. (p, b ! p)) [0..<j] @ memset_zero j m) = [0..<j] @ [j..<j + m]"
      by (simp add: memset_zero_def comp_def)
    also have "\<dots> = [0..<j + m]" using upt_add_eq_append[of 0 j m] by simp
    finally show "distinct (map fst (map (\<lambda>p. (p, b ! p)) [0..<j] @ memset_zero j m))" by simp
    from k show "(k, b ! k) \<in> set (map (\<lambda>p. (p, b ! p)) [0..<j] @ memset_zero j m)" by auto
  qed
  with k show "peek (run_stores (map (\<lambda>p. (p, b ! p)) [0..<j] @ memset_zero j m) mem) j ! k
      = take j b ! k"
    by (simp add: peek_def)
qed

lemma c_string_peek_empty: "c_string (peek (run_stores [(0, 0)] mem) n) = []"
  by (cases n) (simp_all add: c_string_def peek_def upt_conv_Cons)


text \<open>
  C2, as stated: for every buffer of at most \<^verbatim>\<open>MAX_PACKET_LENGTH\<close> bytes, the empty one
  included, decoding the encoded text succeeds and returns the length of the buffer. For
  the empty buffer \<^verbatim>\<open>gps_hexdump\<close> writes the empty string, and \<^verbatim>\<open>gps_hexpack\<close> refuses
  a string of less than one pair with -2. And \<^verbatim>\<open>gps_hexpack\<close> reads at most \<^verbatim>\<open>BUFSIZ\<close>
  characters: with \<^verbatim>\<open>MAX_PACKET_LENGTH\<close> 9216 and \<^verbatim>\<open>BUFSIZ\<close> 8192, a buffer of 4097 bytes
  is encoded in 8194 characters, of which 4096 pairs are decoded.
\<close>

theorem hexdump_hexpack_round_trip_counterexample:
  "length ([] :: u8 list) \<le> unat (9216 :: size_t)
   \<and> fst (gps_hexpack 8192 (peek (run_stores (gps_hexdump 9216 16 (Some []) 0) (\<lambda>_. 0)) 16) 8) = - 2
   \<and> length (replicate 4097 (0 :: u8)) \<le> unat (9216 :: size_t)
   \<and> fst (gps_hexpack 8192
          (peek (run_stores (gps_hexdump 9216 8200 (Some (replicate 4097 0)) 4097) (\<lambda>_. 0)) 8200)
          5000) = 4096"
proof -
  have g: "gps_hexdump 9216 16 (Some []) 0 = [(0, 0)]" by (simp add: gps_hexdump_def)
  have "c_string (peek (run_stores (gps_hexdump 9216 16 (Some []) 0) (\<lambda>_. 0)) 16) = []"
    by (simp only: g c_string_peek_empty)
  then have a: "fst (gps_hexpack 8192 (peek (run_stores (gps_hexdump 9216 16 (Some []) 0) (\<lambda>_. 0)) 16) 8) = - 2"
    by (simp add: gps_hexpack_def strnlen_def)
  have l: "length (replicate 4097 (0 :: u8)) \<le> unat (9216 :: size_t)"
    and c: "2 * length (replicate 4097 (0 :: u8)) + 2 \<le> unat (8200 :: size_t)"
    and n: "replicate 4097 (0 :: u8) \<noteq> []"
    by simp_all
  have j: "(4096 :: nat) = min (2 * length (replicate 4097 (0 :: u8))) (unat (8192 :: size_t)) div 2"
    by simp
  have "fst (gps_hexpack 8192
          (peek (run_stores (gps_hexdump 9216 8200 (Some (replicate 4097 0))
             (of_nat (length (replicate 4097 (0 :: u8))))) (\<lambda>_. 0)) (unat (8200 :: size_t)))
          5000) = 4096"
    unfolding hexdump_buffer[OF l c n] by (subst hexpack_hex_text[OF j]) simp_all
  then have b: "fst (gps_hexpack 8192
          (peek (run_stores (gps_hexdump 9216 8200 (Some (replicate 4097 0)) 4097) (\<lambda>_. 0)) 8200)
          5000) = 4096" by simp
  from a b show ?thesis by simp
qed

text \<open>
  C2, amended. For every buffer \<open>b\<close> that is not empty, has at most
  \<^verbatim>\<open>MAX_PACKET_LENGTH\<close> bytes and whose hex text fits the cap (\<open>2 * length b \<le> BUFSIZ\<close>):
  when the text buffer has room for the hex text, the terminator and one more byte and the
  destination of the decoder has room for \<open>b\<close>, then \<^verbatim>\<open>gps_hexpack\<close> applied to the buffer
  that \<^verbatim>\<open>gps_hexdump\<close> has filled returns \<open>length b\<close> and leaves the bytes of \<open>b\<close> in its
  destination, whatever both destinations held before.
\<close>

theorem hexdump_hexpack_round_trip:
  assumes "b \<noteq> []" and "length b \<le> unat MAX_PACKET_LENGTH" and "2 * length b \<le> unat BUFSIZ"
    and "2 * length b + 2 \<le> unat scbuflen" and "length b \<le> unat len"
  shows "(let enc = peek (run_stores
                      (gps_hexdump MAX_PACKET_LENGTH scbuflen (Some b) (of_nat (length b))) mem)
                    (unat scbuflen);
              res = gps_hexpack BUFSIZ enc len
          in fst res = int (length b) \<and> peek (run_stores (snd res) mem') (length b) = b)"
proof -
  have j: "length b = min (2 * length b) (unat BUFSIZ) div 2" using assms(3) by simp
  from assms(1) have one: "1 \<le> length b" by (cases b) simp_all
  show ?thesis
    unfolding Let_def hexdump_buffer[OF assms(2,4,1)] hexpack_hex_text[OF j one assms(5)]
    using peek_decoded[of "length b" b] by simp
qed

text \<open>
  Three bytes through a text buffer of 16 that was full of the digit \<^verbatim>\<open>1\<close>, decoded into a
  destination of 8.
\<close>

theorem hexdump_hexpack_round_trip_witness:
  "[0xab, 0x01, 0xff :: u8] \<noteq> [] \<and> length [0xab, 0x01, 0xff :: u8] \<le> unat (9216 :: size_t)
   \<and> 2 * length [0xab, 0x01, 0xff :: u8] \<le> unat (8192 :: size_t)
   \<and> 2 * length [0xab, 0x01, 0xff :: u8] + 2 \<le> unat (16 :: size_t)
   \<and> length [0xab, 0x01, 0xff :: u8] \<le> unat (8 :: size_t)
   \<and> (let enc = peek (run_stores (gps_hexdump 9216 16 (Some [0xab, 0x01, 0xff]) 3) (\<lambda>_. 0x31)) 16;
            res = gps_hexpack 8192 enc 8
        in fst res = 3 \<and> peek (run_stores (snd res) (\<lambda>_. 0xee)) 3 = [0xab, 0x01, 0xff])"
proof -
  have h: "[0xab, 0x01, 0xff :: u8] \<noteq> []" "length [0xab, 0x01, 0xff :: u8] \<le> unat (9216 :: size_t)"
    "2 * length [0xab, 0x01, 0xff :: u8] \<le> unat (8192 :: size_t)"
    "2 * length [0xab, 0x01, 0xff :: u8] + 2 \<le> unat (16 :: size_t)"
    "length [0xab, 0x01, 0xff :: u8] \<le> unat (8 :: size_t)"
    by simp_all
  have l3: "length [0xab, 0x01, 0xff :: u8] = 3" by simp
  from hexdump_hexpack_round_trip[OF h, of "\<lambda>_. 0x31" "\<lambda>_. 0xee", unfolded l3] h
  show ?thesis by simp
qed

section \<open>Properties of the visibilizer\<close>

lemma snprintf_ret:
  "snd (if isprint b then snprintf_c p b else snprintf_x p b) = int (length (visible_byte b))"
  by (simp add: visible_byte_def snprintf_c_def snprintf_x_def hex_byte_def)

lemma snprintf_mem:
  "run_stores (fst (if isprint b then snprintf_c p b else snprintf_x p b)) mem k =
     (if p \<le> k \<and> k < p + length (visible_byte b) then visible_byte b ! (k - p)
      else if k = p + length (visible_byte b) then 0 else mem k)"
proof (cases "isprint b")
  case True
  then show ?thesis
    by (auto simp: visible_byte_def snprintf_c_def)
next
  case False
  have "k - p = 0 \<or> k - p = 1 \<or> k - p = 2 \<or> k - p = 3" if "p \<le> k" "k < p + 4"
    using that by arith
  with False show ?thesis
    by (auto simp: visible_byte_def snprintf_x_def hex_byte_def shifted_nibble low_nibble
        nth_Cons')
qed

lemma visible_byte_length: "length (visible_byte b) = 1 \<or> length (visible_byte b) = 4"
  by (simp add: visible_byte_def hex_byte_def)

lemma visible_byte_nonzero: "0 \<notin> set (visible_byte b)"
proof (cases "isprint b")
  case True
  then have "b \<noteq> 0" by (auto simp: isprint_def)
  with True show ?thesis by (simp add: visible_byte_def)
next
  case False
  have "0 \<notin> set (hex_byte b)" using hex_byte_chars[of b] hexchar_nonzero by auto
  with False show ?thesis by (simp add: visible_byte_def)
qed

lemma visible_text_nonzero: "0 \<notin> set (visible_text r c next bs)"
  by (induction bs arbitrary: "next") (simp_all add: visible_byte_nonzero)

lemma size_t_add_ret:
  assumes "unat (next :: size_t) + 6 < unat (outlen :: size_t)" and "r = 1 \<or> r = 4"
  shows "unat (next + word_of_int (int r)) = unat next + r"
proof -
  have "unat outlen < 2 ^ 64" using unsigned_less[of outlen] by simp
  with assms have "unat next + r < 2 ^ 64" by auto
  moreover from assms(2) have "unat (word_of_int (int r) :: size_t) = r" by auto
  ultimately show ?thesis by (simp add: unat_word_ariths)
qed

lemma visibilize_guard:
  assumes "unat (outlen :: size_t) + 4 \<le> 2 ^ 64"
    and "unat (next :: size_t) + 2 < unat outlen \<or> next = 0"
  shows "next + 6 < outlen \<longleftrightarrow> unat next + 6 < unat outlen"
proof -
  have "unat next + 6 < 2 ^ 64" using assms by auto
  then have "unat (next + 6) = unat next + 6" by (simp add: unat_word_ariths)
  then show ?thesis by (simp add: word_less_nat_alt)
qed

lemma visibilize_loop_mem:
  "unat inlen \<le> length inbuf \<Longrightarrow> unat outlen + 4 \<le> 2 ^ 64 \<Longrightarrow>
   unat next + 2 < unat outlen \<or> next = 0 \<Longrightarrow> mem (unat next) = 0 \<Longrightarrow>
   t = visible_text 6 (unat outlen) (unat next) (drop (unat i) (take (unat inlen) inbuf)) \<Longrightarrow>
   run_stores (visibilize_loop outlen inbuf inlen i next) mem k =
     (if unat next \<le> k \<and> k \<le> unat next + length t then (t @ [0]) ! (k - unat next) else mem k)"
proof (induction "unat inlen - unat i" arbitrary: i "next" mem t rule: less_induct)
  case less
  note len = \<open>unat inlen \<le> length inbuf\<close> and cap = \<open>unat outlen + 4 \<le> 2 ^ 64\<close>
    and inv = \<open>unat next + 2 < unat outlen \<or> next = 0\<close> and z = \<open>mem (unat next) = 0\<close>
    and t = \<open>t = visible_text 6 (unat outlen) (unat next) (drop (unat i) (take (unat inlen) inbuf))\<close>
  note guard = visibilize_guard[OF cap inv]
  show ?case
  proof (cases "i < inlen \<and> next + 6 < outlen")
    case False
    have st: "visibilize_loop outlen inbuf inlen i next = []"
      by (subst visibilize_loop.simps) (simp only: False if_False)
    have "t = []"
    proof (cases "i < inlen")
      case True
      with False guard have "\<not> unat next + 6 < unat outlen" by simp
      then show ?thesis unfolding t by (cases "drop (unat i) (take (unat inlen) inbuf)") simp_all
    next
      case False
      then have "drop (unat i) (take (unat inlen) inbuf) = []"
        by (simp add: word_less_nat_alt)
      then show ?thesis unfolding t by simp
    qed
    with st z show ?thesis by auto
  next
    case True
    then have g: "i < inlen" and room: "unat next + 6 < unat outlen"
      using guard by simp_all
    define b where "b = inbuf ! unat i"
    define vb where "vb = visible_byte b"
    define r where "r = (if isprint b then snprintf_c (unat next) b else snprintf_x (unat next) b)"
    have ret: "snd r = int (length vb)" unfolding r_def vb_def by (rule snprintf_ret)
    have lv: "length vb = 1 \<or> length vb = 4" unfolding vb_def by (rule visible_byte_length)
    then have pos: "\<not> 1 > snd r" using ret by auto
    have i1: "unat (i + 1) = unat i + 1" using size_t_succ[OF g] by simp
    have n1: "unat (next + word_of_int (snd r)) = unat next + length vb"
      unfolding ret by (rule size_t_add_ret[OF room lv])
    have st: "visibilize_loop outlen inbuf inlen i next =
        fst r @ visibilize_loop outlen inbuf inlen (i + 1) (next + word_of_int (snd r))"
    proof -
      have "visibilize_loop outlen inbuf inlen i next =
          (let (ss, ret) = r
           in if 1 > ret then ss
              else ss @ visibilize_loop outlen inbuf inlen (i + 1) (next + word_of_int ret))"
        by (subst visibilize_loop.simps) (simp only: True simp_thms if_True r_def b_def)
      with pos show ?thesis by (simp add: split_def)
    qed
    define mem1 where "mem1 = run_stores (fst r) mem"
    have m1: "mem1 j = (if unat next \<le> j \<and> j < unat next + length vb then vb ! (j - unat next)
        else if j = unat next + length vb then 0 else mem j)" for j
      unfolding mem1_def r_def vb_def by (rule snprintf_mem)
    from g len have in_range: "unat i < length (take (unat inlen) inbuf)"
      by (simp add: word_less_nat_alt)
    have dr: "drop (unat i) (take (unat inlen) inbuf) =
        b # drop (unat i + 1) (take (unat inlen) inbuf)"
      using Cons_nth_drop_Suc[OF in_range] g by (simp add: b_def word_less_nat_alt)
    define t' where "t' = visible_text 6 (unat outlen) (unat next + length vb)
        (drop (unat i + 1) (take (unat inlen) inbuf))"
    have tt: "t = vb @ t'" unfolding t dr t'_def vb_def using room by simp
    have inv': "unat (next + word_of_int (snd r)) + 2 < unat outlen \<or> next + word_of_int (snd r) = 0"
      unfolding n1 using room lv by auto
    have z': "mem1 (unat (next + word_of_int (snd r))) = 0"
      unfolding n1 by (simp add: m1)
    have ih: "run_stores (visibilize_loop outlen inbuf inlen (i + 1) (next + word_of_int (snd r))) mem1 k =
        (if unat next + length vb \<le> k \<and> k \<le> unat next + length vb + length t'
         then (t' @ [0]) ! (k - (unat next + length vb)) else mem1 k)"
    proof -
      have d: "unat inlen - unat (i + 1) < unat inlen - unat i"
        using g by (simp add: i1 word_less_nat_alt)
      have t'': "t' = visible_text 6 (unat outlen) (unat (next + word_of_int (snd r)))
          (drop (unat (i + 1)) (take (unat inlen) inbuf))"
        unfolding n1 i1 t'_def by simp
      show ?thesis
        using less.hyps[of "i + 1" "next + word_of_int (snd r)" mem1 t', OF d len cap inv' z' t'']
        unfolding n1 by simp
    qed
    have "run_stores (visibilize_loop outlen inbuf inlen i next) mem k =
        run_stores (visibilize_loop outlen inbuf inlen (i + 1) (next + word_of_int (snd r))) mem1 k"
      unfolding st mem1_def by (simp add: run_stores_append)
    also note ih
    finally show ?thesis
      unfolding tt using lv by (auto simp: m1 nth_append)
  qed
qed

lemma visible_text_length:
  "visible_text 6 c next bs \<noteq> [] \<Longrightarrow> next + length (visible_text 6 c next bs) + 2 < c"
proof (induction bs arbitrary: "next")
  case Nil
  then show ?case by simp
next
  case (Cons b bs)
  from Cons.prems have room: "next + 6 < c" by (simp split: if_splits)
  show ?case
  proof (cases "visible_text 6 c (next + length (visible_byte b)) bs = []")
    case True
    with room visible_byte_length[of b] show ?thesis by auto
  next
    case False
    from Cons.IH[OF False] room show ?thesis by simp
  qed
qed


text \<open>
  C7, as stated: the rendering stops exactly when the source is exhausted or the next
  write of 4 characters would not fit within the capacity less 1. The loop tests
  \<^verbatim>\<open>next + 6 < outlen\<close>: with the capacity 6 and the single byte 0x00 it renders nothing
  and the destination holds the empty string, although the 4 characters of the escape
  fit within 5; the rule of the claim gives the escape.
\<close>

theorem gps_visibilize_stop_counterexample:
  "gps_visibilize 6 [0x00] 1 = [(0, 0)]
   \<and> c_string (peek (run_stores (gps_visibilize 6 [0x00] 1) (\<lambda>_. 0xee)) 6) = []
   \<and> visible_text 4 6 0 [0x00] = [0x5c, 0x78, 0x30, 0x30]
   \<and> (0 :: nat) + 4 \<le> 6 - 1"
proof -
  have "visibilize_loop 6 [0x00] 1 0 0 = []"
    by (subst visibilize_loop.simps) simp
  then have g: "gps_visibilize 6 [0x00] 1 = [(0, 0)]" by (simp add: gps_visibilize_def)
  have "c_string (peek (run_stores (gps_visibilize 6 [0x00] 1) (\<lambda>_. 0xee)) 6) = []"
    by (simp only: g c_string_peek_empty)
  moreover have "visible_text 4 6 0 [0x00] = [0x5c, 0x78, 0x30, 0x30]"
    by (simp add: visible_byte_def isprint_def hex_byte_def hexchar_def)
  ultimately show ?thesis using g by simp
qed

text \<open>
  C7, amended. \<^verbatim>\<open>gps_visibilize\<close> copies each printable byte (\<^verbatim>\<open>isprint\<close>, the test that
  \<^verbatim>\<open>gpsd_packetdump\<close> applies too, next to \<^verbatim>\<open>isspace\<close>) as one character and renders any
  other byte as backslash, \<^verbatim>\<open>x\<close> and two hex digits in lower case. The rendering stops
  exactly when the source is exhausted or \<open>next + 6 < outlen\<close> fails, where \<open>next\<close> is the
  number of characters written so far. The text rendered up to there stands at the start
  of the destination, followed by a NUL, whatever the destination held before; it
  contains no NUL itself, and with the NUL it fits a capacity of at least 1. The capacity
  is at most \<open>2^64 - 4\<close>, so that \<^verbatim>\<open>next + 6\<close> does not wrap around.
\<close>

theorem gps_visibilize_text:
  assumes "unat inlen \<le> length inbuf" and "unat outlen + 4 \<le> 2 ^ 64"
  shows "(let t = visible_text 6 (unat outlen) 0 (take (unat inlen) inbuf) in
            peek (run_stores (gps_visibilize outlen inbuf inlen) mem) (length t + 1) = t @ [0]
          \<and> 0 \<notin> set t
          \<and> (1 \<le> outlen \<longrightarrow> length t + 1 \<le> unat outlen))"
proof -
  define t where "t = visible_text 6 (unat outlen) 0 (take (unat inlen) inbuf)"
  define mem0 where "mem0 = mem(0 := 0)"
  have t0: "t = visible_text 6 (unat outlen) (unat (0 :: size_t))
      (drop (unat (0 :: size_t)) (take (unat inlen) inbuf))"
    by (simp add: t_def)
  have m: "run_stores (visibilize_loop outlen inbuf inlen 0 0) mem0 k =
      (if unat (0 :: size_t) \<le> k \<and> k \<le> unat (0 :: size_t) + length t
       then (t @ [0]) ! (k - unat (0 :: size_t)) else mem0 k)" for k
    by (rule visibilize_loop_mem[OF assms _ _ t0]) (simp_all add: mem0_def)
  have "run_stores (gps_visibilize outlen inbuf inlen) mem k = (t @ [0]) ! k"
    if "k < length t + 1" for k
    using m[of k] that by (simp add: gps_visibilize_def mem0_def)
  then have p: "peek (run_stores (gps_visibilize outlen inbuf inlen) mem) (length t + 1) = t @ [0]"
    unfolding peek_def by (intro nth_equalityI) (simp_all del: upt_Suc)
  have z: "0 \<notin> set t" unfolding t_def by (rule visible_text_nonzero)
  have l: "length t + 1 \<le> unat outlen" if "1 \<le> outlen"
  proof (cases "t = []")
    case True
    with that show ?thesis by (simp add: word_le_nat_alt)
  next
    case False
    with visible_text_length[of "unat outlen" 0 "take (unat inlen) inbuf"]
    show ?thesis by (simp add: t_def)
  qed
  from p z l show ?thesis unfolding t_def[symmetric] Let_def by blast
qed


text \<open>
  The instance of the specification: the bytes 0x00, 0x41, 0xff with the capacity 64
  give backslash \<^verbatim>\<open>x00\<close>, \<^verbatim>\<open>A\<close>, backslash \<^verbatim>\<open>xff\<close> and the NUL.
\<close>

theorem gps_visibilize_text_witness:
  "unat (3 :: size_t) \<le> length [0x00, 0x41, 0xff :: u8] \<and> unat (64 :: size_t) + 4 \<le> 2 ^ 64
   \<and> visible_text 6 64 0 [0x00, 0x41, 0xff] = [0x5c, 0x78, 0x30, 0x30, 0x41, 0x5c, 0x78, 0x66, 0x66]
   \<and> peek (run_stores (gps_visibilize 64 [0x00, 0x41, 0xff] 3) (\<lambda>_. 0xee)) 10 =
        [0x5c, 0x78, 0x30, 0x30, 0x41, 0x5c, 0x78, 0x66, 0x66, 0]"
proof -
  have a: "unat (3 :: size_t) \<le> length [0x00, 0x41, 0xff :: u8]"
    and b: "unat (64 :: size_t) + 4 \<le> 2 ^ 64" by simp_all
  have t: "visible_text 6 (unat (64 :: size_t)) 0 (take (unat (3 :: size_t)) [0x00, 0x41, 0xff]) =
      [0x5c, 0x78, 0x30, 0x30, 0x41, 0x5c, 0x78, 0x66, 0x66]"
    by (simp add: visible_byte_def isprint_def hex_byte_def hexchar_def)
  have l: "length [0x5c, 0x78, 0x30, 0x30, 0x41, 0x5c, 0x78, 0x66, 0x66 :: u8] + 1 = 10"
    by simp
  from gps_visibilize_text[OF a b, of "\<lambda>_. 0xee", unfolded Let_def t l]
  have "peek (run_stores (gps_visibilize 64 [0x00, 0x41, 0xff] 3) (\<lambda>_. 0xee)) 10 =
        [0x5c, 0x78, 0x30, 0x30, 0x41, 0x5c, 0x78, 0x66, 0x66, 0]" by simp
  with a b t show ?thesis by simp
qed


section \<open>Stores and the declared capacity\<close>

text \<open>
  From the capacity 3 on, every store of \<^verbatim>\<open>gps_hexdump\<close> is below the capacity; from the
  capacity 1 on (and up to \<open>2^64 - 4\<close>), so is every store of \<^verbatim>\<open>gps_visibilize\<close>.
\<close>

lemma hexdump_loop_within_capacity:
  "3 \<le> scbuflen \<Longrightarrow> unat j + 1 < unat scbuflen \<Longrightarrow>
   (k, v) \<in> set (hexdump_loop scbuflen len ibuf i j) \<Longrightarrow> k < unat scbuflen"
proof (induction scbuflen len ibuf i j rule: hexdump_loop.induct)
  case (1 scbuflen len ibuf i j)
  show ?case
  proof (cases "i < len \<and> j < scbuflen - 3")
    case False
    then have "hexdump_loop scbuflen len ibuf i j = [(unat j, 0)]"
      by (subst hexdump_loop.simps) (simp only: if_False)
    with 1(3,4) show ?thesis by simp
  next
    case True
    with 1(2) have room: "unat j + 3 < unat scbuflen"
      by (auto simp: word_less_nat_alt size_t_sub3)
    have j1: "unat (j + 1) = unat j + 1"
      using size_t_add_small[of j 1 scbuflen] room by simp
    have j2: "unat (j + 2) = unat j + 2"
      using size_t_add_small[of j 2 scbuflen] room by simp
    have "hexdump_loop scbuflen len ibuf i j =
       (unat j, hexchar ! unat (drop_bit 4 (ibuf ! unat i AND 0xf0))) #
       (unat (j + 1), hexchar ! unat (ibuf ! unat i AND 0x0f)) #
       hexdump_loop scbuflen len ibuf (i + 1) (j + 2)"
      by (subst hexdump_loop.simps) (simp only: True simp_thms if_True)
    with 1(4) consider "k = unat j" | "k = unat (j + 1)"
      | "(k, v) \<in> set (hexdump_loop scbuflen len ibuf (i + 1) (j + 2))" by auto
    then show ?thesis
    proof cases
      case 1
      with room show ?thesis by simp
    next
      case 2
      with room j1 show ?thesis by simp
    next
      case 3
      from "1.IH"[OF True "1.prems"(1) _ 3] room j2 show ?thesis by simp
    qed
  qed
qed

lemma gps_hexdump_within_capacity:
  assumes "3 \<le> scbuflen"
    and "(k, v) \<in> set (gps_hexdump MAX_PACKET_LENGTH scbuflen binbuf binbuflen)"
  shows "k < unat scbuflen"
proof -
  from assms(1) have c: "3 \<le> unat scbuflen" by (simp add: word_le_nat_alt)
  show ?thesis
  proof (cases "binbuf = None \<or> binbuflen = 0")
    case True
    with assms(2) c show ?thesis by (auto simp: gps_hexdump_def split: option.splits)
  next
    case False
    then obtain ibuf where "binbuf = Some ibuf" and "binbuflen \<noteq> 0" by auto
    with assms(2) have "(k, v) \<in> set (hexdump_loop scbuflen
        (if binbuflen > MAX_PACKET_LENGTH then MAX_PACKET_LENGTH else binbuflen) ibuf 0 0)"
      by (simp add: gps_hexdump_def Let_def)
    then show ?thesis
      by (rule hexdump_loop_within_capacity[OF assms(1), rotated]) (use c in simp)
  qed
qed

lemma visibilize_loop_within_capacity:
  "unat outlen + 4 \<le> 2 ^ 64 \<Longrightarrow> unat next + 2 < unat outlen \<or> next = 0 \<Longrightarrow>
   (k, v) \<in> set (visibilize_loop outlen inbuf inlen i next) \<Longrightarrow> k < unat outlen"
proof (induction "unat inlen - unat i" arbitrary: i "next" rule: less_induct)
  case less
  note cap = \<open>unat outlen + 4 \<le> 2 ^ 64\<close> and inv = \<open>unat next + 2 < unat outlen \<or> next = 0\<close>
    and kv = \<open>(k, v) \<in> set (visibilize_loop outlen inbuf inlen i next)\<close>
  note guard = visibilize_guard[OF cap inv]
  show ?case
  proof (cases "i < inlen \<and> next + 6 < outlen")
    case False
    have "visibilize_loop outlen inbuf inlen i next = []"
      by (subst visibilize_loop.simps) (simp only: False if_False)
    with kv show ?thesis by simp
  next
    case True
    then have g: "i < inlen" and room: "unat next + 6 < unat outlen"
      using guard by simp_all
    define b where "b = inbuf ! unat i"
    define r where "r = (if isprint b then snprintf_c (unat next) b else snprintf_x (unat next) b)"
    have ret: "snd r = int (length (visible_byte b))" unfolding r_def by (rule snprintf_ret)
    have lv: "length (visible_byte b) = 1 \<or> length (visible_byte b) = 4"
      by (rule visible_byte_length)
    then have pos: "\<not> 1 > snd r" using ret by auto
    have i1: "unat (i + 1) = unat i + 1" using size_t_succ[OF g] by simp
    have n1: "unat (next + word_of_int (snd r)) = unat next + length (visible_byte b)"
      unfolding ret by (rule size_t_add_ret[OF room lv])
    have "visibilize_loop outlen inbuf inlen i next =
          (let (ss, ret) = r
           in if 1 > ret then ss
              else ss @ visibilize_loop outlen inbuf inlen (i + 1) (next + word_of_int ret))"
      by (subst visibilize_loop.simps) (simp only: True simp_thms if_True r_def b_def)
    with pos have st: "visibilize_loop outlen inbuf inlen i next =
        fst r @ visibilize_loop outlen inbuf inlen (i + 1) (next + word_of_int (snd r))"
      by (simp add: split_def)
    from kv st consider "(k, v) \<in> set (fst r)"
      | "(k, v) \<in> set (visibilize_loop outlen inbuf inlen (i + 1) (next + word_of_int (snd r)))"
      by auto
    then show ?thesis
    proof cases
      case 1
      then have "k \<le> unat next + 4"
        by (auto simp: r_def snprintf_c_def snprintf_x_def split: if_splits)
      with room show ?thesis by simp
    next
      case 2
      have d: "unat inlen - unat (i + 1) < unat inlen - unat i"
        using g by (simp add: i1 word_less_nat_alt)
      have inv': "unat (next + word_of_int (snd r)) + 2 < unat outlen \<or> next + word_of_int (snd r) = 0"
        unfolding n1 using room lv by auto
      from less.hyps[OF d cap inv' 2] show ?thesis .
    qed
  qed
qed

lemma gps_visibilize_within_capacity:
  assumes "1 \<le> outlen" and "unat outlen + 4 \<le> 2 ^ 64"
    and "(k, v) \<in> set (gps_visibilize outlen inbuf inlen)"
  shows "k < unat outlen"
proof -
  from assms(3) consider "k = 0" | "(k, v) \<in> set (visibilize_loop outlen inbuf inlen 0 0)"
    by (auto simp: gps_visibilize_def)
  then show ?thesis
  proof cases
    case 1
    with assms(1) show ?thesis by (simp add: word_le_nat_alt)
  next
    case 2
    then show ?thesis
      by (rule visibilize_loop_within_capacity[OF assms(2), rotated]) simp
  qed
qed

text \<open>
  C3. The claim: for every capacity, 0, 1 and 2 included, \<^verbatim>\<open>gps_hexdump\<close> and
  \<^verbatim>\<open>gps_visibilize\<close> store below the capacity only. In \<^verbatim>\<open>gps_hexdump\<close> the bound
  \<^verbatim>\<open>scbuflen - 3\<close> is unsigned and wraps around for a capacity below 3, so that the guard
  \<^verbatim>\<open>j < scbuflen - 3\<close> no longer stops the loop: with the capacity 1 and one source byte
  the function stores at the offsets 0, 1 and 2, with the capacity 2 and two source bytes
  at the offsets 0 to 4. With the capacity 0 both functions store the terminator at
  offset 0.
\<close>

theorem stores_past_capacity:
  "gps_hexdump 9216 1 (Some [0xab]) 1 = [(0, 0x61), (1, 0x62), (2, 0)]
   \<and> gps_hexdump 9216 2 (Some [0xab, 0xcd]) 2 =
        [(0, 0x61), (1, 0x62), (2, 0x63), (3, 0x64), (4, 0)]
   \<and> gps_hexdump 9216 0 (Some [0xab]) 0 = [(0, 0)]
   \<and> gps_visibilize 0 [0x41] 1 = [(0, 0)]"
proof -
  have "gps_hexdump 9216 0 (Some [0xab]) 0 = [(0, 0)]"
    by (simp add: gps_hexdump_def)
  moreover have "visibilize_loop 0 [0x41] 1 0 0 = []"
    by (subst visibilize_loop.simps) simp
  then have "gps_visibilize 0 [0x41] 1 = [(0, 0)]"
    by (simp add: gps_visibilize_def)
  ultimately show ?thesis using hexdump_cap1 hexdump_cap2 by simp
qed

end
